theory Spec2Isabelle
  imports Main
begin

section \<open>Execution graph: data model (core/graph.h)\<close>

text \<open>
  The graph keeps its tensor allocation records in a vector of owned pointers; a record
  is identified here by its position in that vector, and the raw \<open>next\<close>/\<open>prev\<close>
  pointers become optional positions. An operation is identified by its position in
  \<open>ops\<close> (its opID); the pointer-keyed map \<open>tensorAllocsByOp\<close> becomes a map from
  opIDs to positions. \<open>size_t\<close> is 64 bits wide: sizes and offsets are naturals below
  \<open>2 ^ 64\<close> and every addition and subtraction on them wraps.
\<close>

datatype error =
    LogicError string
  | InvalidArgument string
  | InvalidOperation string
  | RuntimeError string
  | NullPointer
  | AssertionFailed

definition SIZE_MAX :: nat where
  "SIZE_MAX = 2 ^ 64 - 1"

definition size_add :: "nat \<Rightarrow> nat \<Rightarrow> nat" where
  "size_add a b = (a + b) mod 2 ^ 64"

definition size_sub :: "nat \<Rightarrow> nat \<Rightarrow> nat" where
  "size_sub a b = (a + 2 ^ 64 - b mod 2 ^ 64) mod 2 ^ 64"

record TensorDesc =
  alignedSize :: nat

record Op =
  opName :: string
  opScratchAlignedSize :: nat
  opSupported :: bool

record TensorAlloc =
  desc :: TensorDesc
  byteSize :: nat
  firstOpID :: int
  lastOpID :: int
  "next" :: "nat option"
  prev :: "nat option"
  byteOffset :: nat
  tensor :: "nat option"

definition newTensorAlloc :: "TensorDesc \<Rightarrow> int \<Rightarrow> TensorAlloc" where
  "newTensorAlloc d opID =
     \<lparr> desc = d, byteSize = alignedSize d, firstOpID = opID, lastOpID = opID,
       next = None, prev = None, byteOffset = 0, tensor = None \<rparr>"

datatype LazyInit = BindSrc nat nat | BindDst nat nat

record Graph =
  ops :: "Op list"
  scratch :: "nat option"
  opScratchByteSize :: nat
  tensorScratchByteSize :: nat
  constByteSize :: nat
  dirty :: bool
  finalized :: bool
  tensorAllocs :: "TensorAlloc list"
  tensorAllocsByOp :: "nat \<rightharpoonup> nat"
  lazyInits :: "LazyInit list"

definition newGraph :: Graph where
  "newGraph =
     \<lparr> ops = [], scratch = None, opScratchByteSize = 0, tensorScratchByteSize = 0,
       constByteSize = 0, dirty = False, finalized = False, tensorAllocs = [],
       tensorAllocsByOp = Map.empty, lazyInits = [] \<rparr>"

section \<open>Adding operations (Graph::addOp)\<close>

text \<open>
  The loop of \<open>addOp\<close> over the source operations: each source's record gets
  \<open>lastOpID = opID\<close>, and with \<open>concatSrcs\<close> it is linked after the previous source's
  record unless one of the two already has a neighbour on that side. A source operation
  without a record is a null pointer being dereferenced.
\<close>

fun linkSrcs ::
  "int \<Rightarrow> bool \<Rightarrow> (nat \<rightharpoonup> nat) \<Rightarrow> nat list \<Rightarrow> nat option \<Rightarrow> TensorAlloc list
     \<Rightarrow> error + TensorAlloc list" where
  "linkSrcs opID concatSrcs byOp [] prv allocs = Inr allocs"
| "linkSrcs opID concatSrcs byOp (srcOp # srcOps) prv allocs =
     (case byOp srcOp of
        None \<Rightarrow> Inl NullPointer
      | Some cur \<Rightarrow>
          if \<not> cur < length allocs then Inl NullPointer
          else
            let allocs1 = allocs[cur := (allocs ! cur)\<lparr>lastOpID := opID\<rparr>] in
            (case prv of
               Some p \<Rightarrow>
                 if concatSrcs then
                   (if prev (allocs1 ! cur) \<noteq> None \<or> next (allocs1 ! p) \<noteq> None
                    then Inl (LogicError ''invalid tensor allocation constraints'')
                    else
                      let allocs2 = allocs1[cur := (allocs1 ! cur)\<lparr>prev := Some p\<rparr>];
                          allocs3 = allocs2[p := (allocs2 ! p)\<lparr>next := Some cur\<rparr>]
                      in linkSrcs opID concatSrcs byOp srcOps (Some cur) allocs3)
                 else linkSrcs opID concatSrcs byOp srcOps (Some cur) allocs1
             | None \<Rightarrow> linkSrcs opID concatSrcs byOp srcOps (Some cur) allocs1))"

definition addOp :: "Op \<Rightarrow> nat list \<Rightarrow> bool \<Rightarrow> Graph \<Rightarrow> error + Graph" where
  "addOp op srcOps concatSrcs g =
     (if finalized g
      then Inl (LogicError ''graph cannot be changed after finalization'')
      else
        let opID = int (length (ops g)) in
        (case linkSrcs opID concatSrcs (tensorAllocsByOp g) srcOps None (tensorAllocs g) of
           Inl e \<Rightarrow> Inl e
         | Inr allocs \<Rightarrow>
             Inr (g\<lparr>tensorAllocs := allocs, ops := ops g @ [op], dirty := True\<rparr>)))"

text \<open>
  The overload with a destination descriptor first appends the destination's record and
  registers it for the operation, then runs the overload above. It returns the graph and
  the position of the new record.
\<close>

definition addOpDst ::
  "Op \<Rightarrow> nat list \<Rightarrow> TensorDesc \<Rightarrow> bool \<Rightarrow> Graph \<Rightarrow> error + (Graph \<times> nat)" where
  "addOpDst op srcOps dstDesc concatSrcs g =
     (let opID = length (ops g);
          dstAlloc = length (tensorAllocs g);
          g1 = g\<lparr>tensorAllocs := tensorAllocs g @ [newTensorAlloc dstDesc (int opID)],
                 tensorAllocsByOp := (tensorAllocsByOp g)(opID \<mapsto> dstAlloc)\<rparr>
      in case addOp op srcOps concatSrcs g1 of
           Inl e \<Rightarrow> Inl e
         | Inr g2 \<Rightarrow> Inr (g2, dstAlloc))"

text \<open>
  \<open>addInputProcess\<close>, \<open>addPool\<close> and \<open>addUpsample\<close>: the operation itself comes from
  the engine (its descriptor of the destination is the argument \<open>dstDesc\<close>); the graph
  records it and queues the lazy initialisation that binds its tensors.
\<close>

definition addInputProcess :: "Op \<Rightarrow> TensorDesc \<Rightarrow> Graph \<Rightarrow> error + (Graph \<times> nat)" where
  "addInputProcess op dstDesc g =
     (case addOpDst op [] dstDesc False g of
        Inl e \<Rightarrow> Inl e
      | Inr (g1, dstAlloc) \<Rightarrow>
          Inr (g1\<lparr>lazyInits := lazyInits g1 @ [BindDst (length (ops g)) dstAlloc]\<rparr>,
               length (ops g)))"

definition addUnary :: "Op \<Rightarrow> nat \<Rightarrow> TensorDesc \<Rightarrow> Graph \<Rightarrow> error + (Graph \<times> nat)" where
  "addUnary op srcOp dstDesc g =
     (case tensorAllocsByOp g srcOp of
        None \<Rightarrow> Inl NullPointer
      | Some srcAlloc \<Rightarrow>
          (case addOpDst op [srcOp] dstDesc False g of
             Inl e \<Rightarrow> Inl e
           | Inr (g1, dstAlloc) \<Rightarrow>
               Inr (g1\<lparr>lazyInits := lazyInits g1 @
                          [BindSrc (length (ops g)) srcAlloc, BindDst (length (ops g)) dstAlloc]\<rparr>,
                    length (ops g))))"

section \<open>The memory planner (Graph::planAllocations)\<close>

record Chunk =
  firstAlloc :: nat
  chunkFirstOpID :: int
  chunkLastOpID :: int
  chunkByteSize :: nat

text \<open>
  The inner loop that walks a chain through \<open>next\<close> and accumulates the chunk. The
  source's loop has no bound and runs forever on a chain that re-enters itself; the
  model counts the records it may still visit and gives \<open>None\<close> when the count is
  used up. A chain that ends visits no record twice, so a count equal to the number of
  records is enough for it.
\<close>

fun chunkLoop :: "TensorAlloc list \<Rightarrow> nat \<Rightarrow> nat option \<Rightarrow> Chunk \<Rightarrow> Chunk option" where
  "chunkLoop allocs fuel None c = Some c"
| "chunkLoop allocs 0 (Some cur) c = None"
| "chunkLoop allocs (Suc fuel) (Some cur) c =
     (if \<not> cur < length allocs then None
      else
        let a = allocs ! cur in
        chunkLoop allocs fuel (next a)
          (c\<lparr>chunkByteSize := size_add (chunkByteSize c) (byteSize a),
             chunkFirstOpID := min (chunkFirstOpID c) (firstOpID a),
             chunkLastOpID := max (chunkLastOpID c) (lastOpID a)\<rparr>))"

definition initChunk :: "TensorAlloc list \<Rightarrow> nat \<Rightarrow> Chunk" where
  "initChunk allocs i =
     \<lparr> firstAlloc = i, chunkFirstOpID = firstOpID (allocs ! i),
       chunkLastOpID = lastOpID (allocs ! i), chunkByteSize = 0 \<rparr>"

fun collectChunks :: "TensorAlloc list \<Rightarrow> nat list \<Rightarrow> Chunk list option" where
  "collectChunks allocs [] = Some []"
| "collectChunks allocs (i # is) =
     (if prev (allocs ! i) \<noteq> None then collectChunks allocs is
      else
        (case chunkLoop allocs (length allocs) (Some i) (initChunk allocs i) of
           None \<Rightarrow> None
         | Some c \<Rightarrow>
             (case collectChunks allocs is of
                None \<Rightarrow> None
              | Some cs \<Rightarrow> Some (c # cs))))"

text \<open>
  \<open>std::sort\<close> with the comparison \<open>a.byteSize > b.byteSize\<close>: the chunks in descending
  order of size. The order of chunks of equal size is left open by \<open>std::sort\<close>; the
  model keeps them in the order in which they were collected, as the insertion sort
  that \<open>std::sort\<close> runs on short ranges does.
\<close>

definition sortChunks :: "Chunk list \<Rightarrow> Chunk list" where
  "sortChunks cs = sort_key (\<lambda>c. - int (chunkByteSize c)) cs"

text \<open>
  The scan over the active allocations (ascending offsets) for the smallest gap that
  fits the chunk. The state is \<open>(curByteOffset, bestByteOffset, bestGapByteSize)\<close>. The
  right operand of \<open>&&\<close> is evaluated only when the left one holds.
\<close>

fun findGap ::
  "TensorAlloc list \<Rightarrow> Chunk \<Rightarrow> nat list \<Rightarrow> nat \<times> nat \<times> nat \<Rightarrow> nat \<times> nat \<times> nat" where
  "findGap allocs chunk [] st = st"
| "findGap allocs chunk (i # active) (curByteOffset, bestByteOffset, bestGapByteSize) =
     (let alloc = allocs ! i in
      if lastOpID alloc < chunkFirstOpID chunk \<or> firstOpID alloc > chunkLastOpID chunk
      then findGap allocs chunk active (curByteOffset, bestByteOffset, bestGapByteSize)
      else
        let (best, gap) =
              (if size_add curByteOffset (chunkByteSize chunk) \<le> byteOffset alloc \<and>
                  size_sub (byteOffset alloc) curByteOffset < bestGapByteSize
               then (curByteOffset, size_sub (byteOffset alloc) curByteOffset)
               else (bestByteOffset, bestGapByteSize))
        in findGap allocs chunk active
             (max curByteOffset (size_add (byteOffset alloc) (byteSize alloc)), best, gap))"

text \<open>
  \<open>std::upper_bound\<close> on the offsets followed by \<open>insert\<close>: the new record goes in front
  of the first active record whose offset is greater than its own.
\<close>

fun insertActive :: "TensorAlloc list \<Rightarrow> nat \<Rightarrow> nat list \<Rightarrow> nat list" where
  "insertActive allocs a [] = [a]"
| "insertActive allocs a (e # es) =
     (if byteOffset (allocs ! a) < byteOffset (allocs ! e) then a # e # es
      else e # insertActive allocs a es)"

text \<open>
  The loop that assigns the offsets of a chunk's records in chain order. The state is
  the records, the active list and \<open>bestByteOffset\<close>.
\<close>

fun assignLoop ::
  "nat \<Rightarrow> nat option \<Rightarrow> TensorAlloc list \<times> nat list \<times> nat
     \<Rightarrow> (TensorAlloc list \<times> nat list \<times> nat) option" where
  "assignLoop fuel None st = Some st"
| "assignLoop 0 (Some cur) st = None"
| "assignLoop (Suc fuel) (Some cur) (allocs, active, bestByteOffset) =
     (if \<not> cur < length allocs then None
      else
        let allocs1 = allocs[cur := (allocs ! cur)\<lparr>byteOffset := bestByteOffset\<rparr>];
            active1 = insertActive allocs1 cur active
        in assignLoop fuel (next (allocs1 ! cur))
             (allocs1, active1, size_add bestByteOffset (byteSize (allocs1 ! cur))))"

definition placeChunk ::
  "Chunk \<Rightarrow> TensorAlloc list \<times> nat list \<times> nat \<Rightarrow> (TensorAlloc list \<times> nat list \<times> nat) option" where
  "placeChunk chunk st =
     (case st of (allocs, active, tensorScratch) \<Rightarrow>
        (case findGap allocs chunk active (0, SIZE_MAX, SIZE_MAX) of
           (curByteOffset, best, gap) \<Rightarrow>
             let bestByteOffset = (if best = SIZE_MAX then curByteOffset else best) in
             (case assignLoop (length allocs) (Some (firstAlloc chunk))
                     (allocs, active, bestByteOffset) of
                None \<Rightarrow> None
              | Some (allocs1, active1, endOffset) \<Rightarrow>
                  Some (allocs1, active1, max tensorScratch endOffset))))"

fun placeChunks ::
  "Chunk list \<Rightarrow> TensorAlloc list \<times> nat list \<times> nat \<Rightarrow> (TensorAlloc list \<times> nat list \<times> nat) option" where
  "placeChunks [] st = Some st"
| "placeChunks (c # cs) st =
     (case placeChunk c st of None \<Rightarrow> None | Some st1 \<Rightarrow> placeChunks cs st1)"

text \<open>The maximum of the operations' scratch sizes, as the last loop of the planner computes it.\<close>

definition maxOpScratch :: "Op list \<Rightarrow> nat" where
  "maxOpScratch os = fold (\<lambda>op acc. max acc (opScratchAlignedSize op)) os 0"

text \<open>
  \<open>planAllocations\<close>. Its last loop stores the maximum in a variable declared inside
  the function, which has the name of the member \<open>opScratchByteSize\<close>; the member is
  not assigned.
\<close>

definition planAllocations :: "Graph \<Rightarrow> Graph option" where
  "planAllocations g =
     (case collectChunks (tensorAllocs g) [0 ..< length (tensorAllocs g)] of
        None \<Rightarrow> None
      | Some chunks \<Rightarrow>
          (case placeChunks (sortChunks chunks) (tensorAllocs g, [], 0) of
             None \<Rightarrow> None
           | Some (allocs, active, tensorScratch) \<Rightarrow>
               let localOpScratchByteSize = maxOpScratch (ops g) in
               Some (g\<lparr>tensorAllocs := allocs, tensorScratchByteSize := tensorScratch,
                       dirty := False\<rparr>)))"

definition getScratchAlignedSize :: "Graph \<Rightarrow> (nat \<times> Graph) option" where
  "getScratchAlignedSize g =
     (case (if dirty g then planAllocations g else Some g) of
        None \<Rightarrow> None
      | Some g1 \<Rightarrow> Some (size_add (opScratchByteSize g1) (tensorScratchByteSize g1), g1))"

definition setScratch :: "nat \<Rightarrow> Graph \<Rightarrow> Graph" where
  "setScratch buf g = g\<lparr>scratch := Some buf\<rparr>"

definition cleanup :: "Graph \<Rightarrow> Graph" where
  "cleanup g = g\<lparr>lazyInits := [], tensorAllocsByOp := Map.empty, tensorAllocs := []\<rparr>"

definition clear :: "Graph \<Rightarrow> Graph" where
  "clear g =
     (cleanup g)\<lparr>ops := [], scratch := None, opScratchByteSize := 0,
                 tensorScratchByteSize := 0, constByteSize := 0, dirty := False\<rparr>"

text \<open>
  \<open>finalize\<close>: plan if dirty, create each record's tensor in the scratch buffer at
  \<open>opScratchByteSize + byteOffset\<close> (a null pointer is dereferenced when there is a
  record and no scratch buffer), run and drop the lazy initialisations, drop the
  building state and set \<open>finalized\<close>. What the operations do in their own \<open>finalize\<close>
  is outside the graph.
\<close>

definition finalize :: "Graph \<Rightarrow> (error + Graph) option" where
  "finalize g =
     (case (if dirty g then planAllocations g else Some g) of
        None \<Rightarrow> None
      | Some g1 \<Rightarrow>
          if tensorAllocs g1 \<noteq> [] \<and> scratch g1 = None then Some (Inl NullPointer)
          else
            let g2 = g1\<lparr>tensorAllocs :=
                          map (\<lambda>a. a\<lparr>tensor := Some (size_add (opScratchByteSize g1) (byteOffset a))\<rparr>)
                            (tensorAllocs g1)\<rparr>;
                g3 = g2\<lparr>lazyInits := []\<rparr>
            in Some (Inr ((cleanup g3)\<lparr>finalized := True\<rparr>)))"

section \<open>Example graphs\<close>

text \<open>An operation with 64 bytes of scratch and a destination tensor of 128 bytes.\<close>

definition scratchOp :: Op where
  "scratchOp = \<lparr> opName = ''input'', opScratchAlignedSize = 64, opSupported = True \<rparr>"

definition scratchGraph :: Graph where
  "scratchGraph =
     (case addInputProcess scratchOp \<lparr> alignedSize = 128 \<rparr> newGraph of
        Inr (g, opID) \<Rightarrow> g
      | Inl e \<Rightarrow> newGraph)"

text \<open>The graph above with a scratch buffer, finalized.\<close>

definition finalizedGraph :: Graph where
  "finalizedGraph =
     \<lparr> ops = [scratchOp], scratch = Some 4096, opScratchByteSize = 0,
       tensorScratchByteSize = 128, constByteSize = 0, dirty = False, finalized = True,
       tensorAllocs = [], tensorAllocsByOp = Map.empty, lazyInits = [] \<rparr>"

section \<open>Filter parameters and weight selection (core/unet_filter.cpp)\<close>

text \<open>
  An image is present or absent (a null reference); what the checks read of a present
  image is its format and its size. \<open>Data\<close> is a blob that may be null: \<open>None\<close> is the
  null blob, and a built-in blob is named by its member in \<open>weightsBlobs\<close>.
\<close>

datatype Format = Float3 | Half3 | OtherFormat

record Image =
  imgFormat :: Format
  imgW :: int
  imgH :: int

type_synonym Data = "string option"

record WeightsBlobs =
  wb_ldr :: Data
  wb_hdr :: Data
  wb_dir :: Data
  wb_ldr_alb :: Data
  wb_hdr_alb :: Data
  wb_ldr_alb_nrm :: Data
  wb_hdr_alb_nrm :: Data
  wb_ldr_calb_cnrm :: Data
  wb_hdr_calb_cnrm :: Data
  wb_alb :: Data
  wb_nrm :: Data

record UNetFilter =
  color :: "Image option"
  albedo :: "Image option"
  normal :: "Image option"
  "output" :: "Image option"
  hdr :: bool
  srgb :: bool
  directional :: bool
  cleanAux :: bool
  userWeightsBlob :: Data
  weightsBlobs :: WeightsBlobs

definition formatIsNot :: "Format \<Rightarrow> Image option \<Rightarrow> bool" where
  "formatIsNot fmt img = (case img of None \<Rightarrow> False | Some i \<Rightarrow> imgFormat i \<noteq> fmt)"

definition sizeDiffers :: "Image \<Rightarrow> Image option \<Rightarrow> bool" where
  "sizeDiffers out img =
     (case img of None \<Rightarrow> False | Some i \<Rightarrow> imgW i \<noteq> imgW out \<or> imgH i \<noteq> imgH out)"

definition checkParams :: "UNetFilter \<Rightarrow> error + unit" where
  "checkParams f =
     (if color f = None \<and> albedo f = None \<and> normal f = None
      then Inl (InvalidOperation ''input image not specified'')
      else
        (case output f of
           None \<Rightarrow> Inl (InvalidOperation ''output image not specified'')
         | Some out \<Rightarrow>
             if (formatIsNot Float3 (color f) \<or> formatIsNot Float3 (albedo f) \<or>
                 formatIsNot Float3 (normal f)) \<and>
                (formatIsNot Half3 (color f) \<or> formatIsNot Half3 (albedo f) \<or>
                 formatIsNot Half3 (normal f))
             then Inl (InvalidOperation ''unsupported input image format'')
             else if imgFormat out \<noteq> Float3 \<and> imgFormat out \<noteq> Half3
             then Inl (InvalidOperation ''unsupported output image format'')
             else if sizeDiffers out (color f) \<or> sizeDiffers out (albedo f) \<or>
                     sizeDiffers out (normal f)
             then Inl (InvalidOperation ''image size mismatch'')
             else if directional f \<and> (hdr f \<or> srgb f)
             then Inl (InvalidOperation
                    ''directional and hdr/srgb modes cannot be enabled at the same time'')
             else if hdr f \<and> srgb f
             then Inl (InvalidOperation ''hdr and srgb modes cannot be enabled at the same time'')
             else Inr ()))"

definition getWeights :: "UNetFilter \<Rightarrow> error + Data" where
  "getWeights f =
     (let wb = weightsBlobs f;
          selected =
            (if color f \<noteq> None then
               (if albedo f = None \<and> normal f = None
                then Inr (if directional f then wb_dir wb
                          else (if hdr f then wb_hdr wb else wb_ldr wb))
                else if albedo f \<noteq> None \<and> normal f = None
                then Inr (if hdr f then wb_hdr_alb wb else wb_ldr_alb wb)
                else if albedo f \<noteq> None \<and> normal f \<noteq> None
                then (if cleanAux f
                      then Inr (if hdr f then wb_hdr_calb_cnrm wb else wb_ldr_calb_cnrm wb)
                      else Inr (if hdr f then wb_hdr_alb_nrm wb else wb_ldr_alb_nrm wb))
                else Inr None)
             else
               (if albedo f \<noteq> None \<and> normal f = None
                then (if hdr f
                      then Inl (InvalidOperation ''hdr mode is not supported for albedo filtering'')
                      else Inr (wb_alb wb))
                else if albedo f = None \<and> normal f \<noteq> None
                then (if hdr f \<or> srgb f
                      then Inl (InvalidOperation
                             ''hdr and srgb modes are not supported for normal filtering'')
                      else Inr (wb_nrm wb))
                else Inl (InvalidOperation ''invalid combination of input features'')))
      in case selected of
           Inl e \<Rightarrow> Inl e
         | Inr weightsBlob \<Rightarrow>
             let weightsBlob1 = (if userWeightsBlob f \<noteq> None then userWeightsBlob f
                                 else weightsBlob)
             in if weightsBlob1 = None
                then Inl (InvalidOperation ''unsupported combination of input features'')
                else Inr weightsBlob1)"

text \<open>The part of \<open>init\<close> that can reject a configuration: \<open>checkParams\<close>, then \<open>getWeights\<close>.\<close>

definition initWeights :: "UNetFilter \<Rightarrow> error + Data" where
  "initWeights f = (case checkParams f of Inl e \<Rightarrow> Inl e | Inr u \<Rightarrow> getWeights f)"

text \<open>
  The selection table of the specification, section 6.3: the rows
  (color, albedo, normal, hdr, directional, cleanAux) and the blob of each.
\<close>

definition selectionTable :: "((bool \<times> bool \<times> bool \<times> bool \<times> bool \<times> bool) \<times> string) list" where
  "selectionTable =
     [((True, False, False, False, False, False), ''ldr''),
      ((True, False, False, True, False, False), ''hdr''),
      ((True, False, False, False, True, False), ''dir''),
      ((True, True, False, False, False, False), ''ldr_alb''),
      ((True, True, False, True, False, False), ''hdr_alb''),
      ((True, True, True, False, False, False), ''ldr_alb_nrm''),
      ((True, True, True, True, False, False), ''hdr_alb_nrm''),
      ((True, True, True, False, False, True), ''ldr_calb_cnrm''),
      ((True, True, True, True, False, True), ''hdr_calb_cnrm''),
      ((False, True, False, False, False, False), ''alb''),
      ((False, False, True, False, False, False), ''nrm'')]"

definition configRow :: "UNetFilter \<Rightarrow> bool \<times> bool \<times> bool \<times> bool \<times> bool \<times> bool" where
  "configRow f =
     (color f \<noteq> None, albedo f \<noteq> None, normal f \<noteq> None, hdr f, directional f, cleanAux f)"

text \<open>
  The row with the flags cleared that the selection does not read for the inputs
  present: \<open>cleanAux\<close> unless color, albedo and normal are all present, \<open>directional\<close>
  unless color is the only input.
\<close>

definition effectiveRow :: "UNetFilter \<Rightarrow> bool \<times> bool \<times> bool \<times> bool \<times> bool \<times> bool" where
  "effectiveRow f =
     (color f \<noteq> None, albedo f \<noteq> None, normal f \<noteq> None, hdr f,
      directional f \<and> color f \<noteq> None \<and> albedo f = None \<and> normal f = None,
      cleanAux f \<and> color f \<noteq> None \<and> albedo f \<noteq> None \<and> normal f \<noteq> None)"

definition allBlobs :: WeightsBlobs where
  "allBlobs =
     \<lparr> wb_ldr = Some ''ldr'', wb_hdr = Some ''hdr'', wb_dir = Some ''dir'',
       wb_ldr_alb = Some ''ldr_alb'', wb_hdr_alb = Some ''hdr_alb'',
       wb_ldr_alb_nrm = Some ''ldr_alb_nrm'', wb_hdr_alb_nrm = Some ''hdr_alb_nrm'',
       wb_ldr_calb_cnrm = Some ''ldr_calb_cnrm'', wb_hdr_calb_cnrm = Some ''hdr_calb_cnrm'',
       wb_alb = Some ''alb'', wb_nrm = Some ''nrm'' \<rparr>"

definition image64 :: Image where
  "image64 = \<lparr> imgFormat = Float3, imgW = 64, imgH = 64 \<rparr>"

definition cleanAuxColorOnly :: UNetFilter where
  "cleanAuxColorOnly =
     \<lparr> color = Some image64, albedo = None, normal = None, output = Some image64,
       hdr = False, srgb = False, directional = False, cleanAux = True,
       userWeightsBlob = None, weightsBlobs = allBlobs \<rparr>"

definition colorNormalOnly :: UNetFilter where
  "colorNormalOnly =
     \<lparr> color = Some image64, albedo = None, normal = Some image64, output = Some image64,
       hdr = False, srgb = False, directional = False, cleanAux = False,
       userWeightsBlob = None, weightsBlobs = allBlobs \<rparr>"

section \<open>The U-Net's convolutions and the DPAS convolution kernel\<close>

text \<open>
  The activation each convolution of the network is built with, in the order of
  \<open>UNetFilter::buildModel\<close>; \<open>addConv\<close> and \<open>addConcatConv\<close> default to
  \<open>Activation::ReLU\<close>, and \<open>dec_conv0\<close> alone is built with \<open>Activation::None\<close>.
\<close>

datatype Activation = NoActivation | ReLU

datatype PostOp = NoPostOp | Pool | Upsample

record ConvDesc =
  activation :: Activation
  postOp :: PostOp

definition buildModelConvs :: "(string \<times> ConvDesc) list" where
  "buildModelConvs =
     [(''enc_conv0'', \<lparr>activation = ReLU, postOp = NoPostOp\<rparr>),
      (''enc_conv1'', \<lparr>activation = ReLU, postOp = Pool\<rparr>),
      (''enc_conv2'', \<lparr>activation = ReLU, postOp = Pool\<rparr>),
      (''enc_conv3'', \<lparr>activation = ReLU, postOp = Pool\<rparr>),
      (''enc_conv4'', \<lparr>activation = ReLU, postOp = Pool\<rparr>),
      (''enc_conv5a'', \<lparr>activation = ReLU, postOp = NoPostOp\<rparr>),
      (''enc_conv5b'', \<lparr>activation = ReLU, postOp = Upsample\<rparr>),
      (''dec_conv4a'', \<lparr>activation = ReLU, postOp = NoPostOp\<rparr>),
      (''dec_conv4b'', \<lparr>activation = ReLU, postOp = Upsample\<rparr>),
      (''dec_conv3a'', \<lparr>activation = ReLU, postOp = NoPostOp\<rparr>),
      (''dec_conv3b'', \<lparr>activation = ReLU, postOp = Upsample\<rparr>),
      (''dec_conv2a'', \<lparr>activation = ReLU, postOp = NoPostOp\<rparr>),
      (''dec_conv2b'', \<lparr>activation = ReLU, postOp = Upsample\<rparr>),
      (''dec_conv1a'', \<lparr>activation = ReLU, postOp = NoPostOp\<rparr>),
      (''dec_conv1b'', \<lparr>activation = ReLU, postOp = NoPostOp\<rparr>),
      (''dec_conv0'', \<lparr>activation = NoActivation, postOp = NoPostOp\<rparr>)]"

text \<open>
  The end of \<open>SYCLConvDPASKernel::operator()\<close> for one output row: the row of
  accumulators (already in the order of the destination, \<open>blockOW\<close> pixels of \<open>blockC\<close>
  channels) gets the bias vector added to each pixel and is then clamped at zero and
  stored. The kernel belongs to a \<open>SYCLConvDPAS\<close> constructed from the convolution's
  descriptor, which is the first argument; nothing in the kernel or in \<open>run\<close> reads its
  activation. Values are the numbers the half-precision elements denote; rounding is
  not modelled.
\<close>

definition blockOW :: nat where
  "blockOW = 8"

definition blockC :: nat where
  "blockC = 16"

definition SYCLConvDPAS_outputRow ::
  "ConvDesc \<Rightarrow> ('a::linordered_idom) list \<Rightarrow> 'a list \<Rightarrow> 'a list" where
  "SYCLConvDPAS_outputRow convDesc accumRow biasVec =
     (let dstVec = accumRow;
          dstVec1 = map2 (+) dstVec (concat (replicate blockOW biasVec));
          dstVec2 = map (\<lambda>v. max v 0) dstVec1
      in dstVec2)"

text \<open>What the descriptor's activation asks for.\<close>

definition applyActivation :: "Activation \<Rightarrow> ('a::linordered_idom) \<Rightarrow> 'a" where
  "applyActivation a v = (case a of NoActivation \<Rightarrow> v | ReLU \<Rightarrow> max v 0)"

section \<open>Tile planning and the tile loop (UNetFilter::init, UNetFilter::execute)\<close>

text \<open>
  Modelled from the spec: \<open>ceilDiv\<close> and \<open>roundUp\<close>, whose definitions (the helpers
  \<open>ceil_div\<close> and \<open>round_up\<close>) are not among the source files: for a positive \<open>b\<close>,
  the least integer not below \<open>a / b\<close> and the least multiple of \<open>b\<close> not below \<open>a\<close>.
  Image and tile sizes are 32-bit \<open>int\<close> in the source; they are modelled as unbounded
  integers, which is what the source computes as long as no intermediate result leaves
  the range of \<open>int\<close> (it does for an image size within \<open>alignment\<close> of \<open>INT_MAX\<close>).
  What is proved of the tile grid is stated for sizes that keep the arithmetic in range.
\<close>

definition ceil_div :: "int \<Rightarrow> int \<Rightarrow> int" where
  "ceil_div a b = (a + b - 1) div b"

definition round_up :: "int \<Rightarrow> int \<Rightarrow> int" where
  "round_up a b = ceil_div a b * b"

record TileGeom =
  tileH :: int
  tileW :: int
  tileCountH :: int
  tileCountW :: int

text \<open>
  The subdivision loop of \<open>init\<close>. \<open>buildModel\<close> builds the graphs for the current
  tiles within a memory budget and says whether that worked; of its effects only this
  answer reaches the tile sizes, so it is a parameter here, a function of the budget and
  of the tile geometry it reads. The loop need not end (when \<open>buildModel\<close> keeps failing
  and a tile size stays above the minimum), so the model counts iterations and gives
  \<open>None\<close> when the count is used up. The result says whether the loop was left through
  the branch that builds without a budget.
\<close>

fun subdivideLoop ::
  "nat \<Rightarrow> (nat \<Rightarrow> TileGeom \<Rightarrow> bool) \<Rightarrow> nat \<Rightarrow> int \<Rightarrow> int \<Rightarrow> int \<Rightarrow> int \<Rightarrow> int \<Rightarrow> TileGeom
     \<Rightarrow> (error + TileGeom \<times> bool) option" where
  "subdivideLoop 0 buildModel maxMemoryByteSize numEngines H W overlap alignment g = None"
| "subdivideLoop (Suc fuel) buildModel maxMemoryByteSize numEngines H W overlap alignment g =
     (let minTileSize = 3 * overlap in
      if (tileCountH g * tileCountW g) mod numEngines \<noteq> 0 \<or> \<not> buildModel maxMemoryByteSize g
      then
        (if tileH g > minTileSize \<and> tileH g > tileW g
         then subdivideLoop fuel buildModel maxMemoryByteSize numEngines H W overlap alignment
                (g\<lparr>tileCountH := tileCountH g + 1,
                   tileH := max (round_up (ceil_div (H - 2 * overlap) (tileCountH g + 1)) alignment
                                 + 2 * overlap) minTileSize\<rparr>)
         else if tileW g > minTileSize
         then subdivideLoop fuel buildModel maxMemoryByteSize numEngines H W overlap alignment
                (g\<lparr>tileCountW := tileCountW g + 1,
                   tileW := max (round_up (ceil_div (W - 2 * overlap) (tileCountW g + 1)) alignment
                                 + 2 * overlap) minTileSize\<rparr>)
         else
           (if \<not> buildModel SIZE_MAX g
            then Some (Inl (RuntimeError ''could not build filter model''))
            else Some (Inr (g, True))))
      else Some (Inr (g, False)))"

definition initialTiles :: "int \<Rightarrow> int \<Rightarrow> int \<Rightarrow> TileGeom" where
  "initialTiles H W alignment =
     \<lparr> tileH = round_up H alignment, tileW = round_up W alignment,
       tileCountH = 1, tileCountW = 1 \<rparr>"

definition finalTileCounts :: "int \<Rightarrow> int \<Rightarrow> int \<Rightarrow> TileGeom \<Rightarrow> TileGeom" where
  "finalTileCounts H W overlap g =
     g\<lparr>tileCountH := (if H > tileH g then ceil_div (H - 2 * overlap) (tileH g - 2 * overlap) else 1),
       tileCountW := (if W > tileW g then ceil_div (W - 2 * overlap) (tileW g - 2 * overlap) else 1)\<rparr>"

definition initTiles ::
  "nat \<Rightarrow> (nat \<Rightarrow> TileGeom \<Rightarrow> bool) \<Rightarrow> nat \<Rightarrow> int \<Rightarrow> int \<Rightarrow> int \<Rightarrow> int \<Rightarrow> int
     \<Rightarrow> (error + TileGeom) option" where
  "initTiles fuel buildModel maxMemoryByteSize numEngines H W overlap alignment =
     (case subdivideLoop fuel buildModel maxMemoryByteSize numEngines H W overlap alignment
             (initialTiles H W alignment) of
        None \<Rightarrow> None
      | Some (Inl e) \<Rightarrow> Some (Inl e)
      | Some (Inr (g, fallback)) \<Rightarrow> Some (Inr (finalTileCounts H W overlap g)))"

text \<open>
  The arguments of \<open>outputProcess->setTile\<close> for tile \<open>(i, j)\<close> of the loop in
  \<open>execute\<close>: the offset inside the tile buffer, the offset in the output image and the
  size of the output tile.
\<close>

record OutputTile =
  tileSrcH :: int
  tileSrcW :: int
  tileDstH :: int
  tileDstW :: int
  tileSizeH :: int
  tileSizeW :: int

definition outputTile :: "int \<Rightarrow> int \<Rightarrow> int \<Rightarrow> int \<Rightarrow> TileGeom \<Rightarrow> int \<Rightarrow> int \<Rightarrow> OutputTile" where
  "outputTile H W overlap alignment g i j =
     (let h = i * (tileH g - 2 * overlap);
          overlapBeginH = (if i > 0 then overlap else 0);
          overlapEndH = (if i < tileCountH g - 1 then overlap else 0);
          tileH1 = min (H - h) (tileH g);
          tileH2 = tileH1 - overlapBeginH - overlapEndH;
          alignOffsetH = tileH g - round_up tileH1 alignment;
          w = j * (tileW g - 2 * overlap);
          overlapBeginW = (if j > 0 then overlap else 0);
          overlapEndW = (if j < tileCountW g - 1 then overlap else 0);
          tileW1 = min (W - w) (tileW g);
          tileW2 = tileW1 - overlapBeginW - overlapEndW;
          alignOffsetW = tileW g - round_up tileW1 alignment
      in \<lparr> tileSrcH = alignOffsetH + overlapBeginH, tileSrcW = alignOffsetW + overlapBeginW,
           tileDstH = h + overlapBeginH, tileDstW = w + overlapBeginW,
           tileSizeH = tileH2, tileSizeW = tileW2 \<rparr>)"

definition executeTiles :: "int \<Rightarrow> int \<Rightarrow> int \<Rightarrow> int \<Rightarrow> TileGeom \<Rightarrow> OutputTile list" where
  "executeTiles H W overlap alignment g =
     concat (map (\<lambda>i. map (\<lambda>j. outputTile H W overlap alignment g i j) [0 .. tileCountW g - 1])
               [0 .. tileCountH g - 1])"

text \<open>The pixels \<open>(row, column)\<close> of the output image that an output tile writes.\<close>

definition tilePixels :: "OutputTile \<Rightarrow> (int \<times> int) set" where
  "tilePixels t = {tileDstH t ..< tileDstH t + tileSizeH t} \<times> {tileDstW t ..< tileDstW t + tileSizeW t}"

definition tilesCover :: "int \<Rightarrow> int \<Rightarrow> int \<Rightarrow> int \<Rightarrow> TileGeom \<Rightarrow> bool" where
  "tilesCover H W overlap alignment g =
     ((\<Union>t \<in> set (executeTiles H W overlap alignment g). tilePixels t) = {0 ..< H} \<times> {0 ..< W})"

definition tilesDisjoint :: "int \<Rightarrow> int \<Rightarrow> int \<Rightarrow> int \<Rightarrow> TileGeom \<Rightarrow> bool" where
  "tilesDisjoint H W overlap alignment g =
     (\<forall>i \<in> {0 ..< tileCountH g}. \<forall>j \<in> {0 ..< tileCountW g}.
      \<forall>i' \<in> {0 ..< tileCountH g}. \<forall>j' \<in> {0 ..< tileCountW g}.
        (i, j) \<noteq> (i', j') \<longrightarrow>
        tilePixels (outputTile H W overlap alignment g i j) \<inter>
        tilePixels (outputTile H W overlap alignment g i' j') = {})"

text \<open>
  One axis of the tile loop: the first output row (column) of tile \<open>i\<close> and one past its
  last, for image size \<open>S\<close>, tile size \<open>T\<close> and tile count \<open>C\<close> along the axis.
\<close>

definition axisBegin :: "int \<Rightarrow> int \<Rightarrow> int \<Rightarrow> int" where
  "axisBegin overlap T i = i * (T - 2 * overlap) + (if i > 0 then overlap else 0)"

definition axisEnd :: "int \<Rightarrow> int \<Rightarrow> int \<Rightarrow> int \<Rightarrow> int \<Rightarrow> int" where
  "axisEnd S overlap T C i =
     i * (T - 2 * overlap) + min (S - i * (T - 2 * overlap)) T
       - (if i < C - 1 then overlap else 0)"

definition axisCount :: "int \<Rightarrow> int \<Rightarrow> int \<Rightarrow> int" where
  "axisCount S overlap T = (if S > T then ceil_div (S - 2 * overlap) (T - 2 * overlap) else 1)"

definition axisBound :: "int \<Rightarrow> int \<Rightarrow> int \<Rightarrow> int \<Rightarrow> int \<Rightarrow> int" where
  "axisBound S overlap T C i =
     (if i \<le> 0 then 0 else if C \<le> i then S else i * (T - 2 * overlap) + overlap)"

definition axisTile :: "int \<Rightarrow> int \<Rightarrow> int \<Rightarrow> int \<Rightarrow> int set" where
  "axisTile S overlap T i =
     {axisBegin overlap T i ..< axisEnd S overlap T (axisCount S overlap T) i}"

definition tileSizeOk :: "int \<Rightarrow> int \<Rightarrow> int \<Rightarrow> int \<Rightarrow> bool" where
  "tileSizeOk S overlap alignment T =
     ((T = round_up S alignment \<or> 3 * overlap \<le> T) \<and> (S \<le> T \<or> 2 * overlap < T))"

text \<open>
  A \<open>buildModel\<close> for the examples: the memory a model needs is one byte for each
  pixel of a tile.
\<close>

definition pixelBudgetModel :: "nat \<Rightarrow> TileGeom \<Rightarrow> bool" where
  "pixelBudgetModel maxMemoryByteSize g = (tileH g * tileW g \<le> int maxMemoryByteSize)"

definition tiles544 :: TileGeom where
  "tiles544 = \<lparr> tileH = 544, tileW = 544, tileCountH = 2, tileCountW = 2 \<rparr>"

definition tiles16 :: TileGeom where
  "tiles16 = \<lparr> tileH = 16, tileW = 16, tileCountH = 1, tileCountW = 1 \<rparr>"

section \<open>The upsampling kernel (core/sycl/sycl_upsample.cpp)\<close>

text \<open>
  Device memory is a function from addresses to elements. Addresses, pointers and
  strides are counted in elements (the source counts bytes: every one of them is the
  number here times \<open>sizeof(T)\<close>), and pointer arithmetic stays inside the buffers, so
  it does not wrap.

  Modelled from the spec: the accessor of a tensor in the blocked layout \<open>Chw16c\<close>
  (\<open>TensorAccessor3D\<close> is not among the source files): channels in blocks of
  \<open>B = 16\<close>, each block holding its rows one after the other, each row its pixels and
  each pixel the 16 channels of the block. The fields are named \<open>accC\<close>, \<open>accH\<close>,
  \<open>accW\<close> for the accessor's \<open>C\<close>, \<open>H\<close>, \<open>W\<close>.
\<close>

definition blockB :: nat where
  "blockB = 16"

record TensorAccessor3D =
  ptr :: nat
  accC :: nat
  accH :: nat
  accW :: nat
  hStride :: nat
  wStride :: nat

definition accessorChw16c :: "nat \<Rightarrow> nat \<Rightarrow> nat \<Rightarrow> nat \<Rightarrow> TensorAccessor3D" where
  "accessorChw16c p C H W =
     \<lparr> ptr = p, accC = C, accH = H, accW = W, hStride = W * blockB, wStride = blockB \<rparr>"

definition elemAddr :: "TensorAccessor3D \<Rightarrow> nat \<Rightarrow> nat \<Rightarrow> nat \<Rightarrow> nat" where
  "elemAddr t c h w =
     ptr t + ((c div blockB) * accH t + h) * hStride t + w * wStride t + c mod blockB"

definition tensorRegion :: "TensorAccessor3D \<Rightarrow> nat set" where
  "tensorRegion t = {ptr t ..< ptr t + (accC t div blockB) * accH t * accW t * blockB}"

text \<open>
  Modelled from the spec: the destination of an upsampling operation (the \<open>Upsample\<close>
  base class that derives it is not among the source files): the channels and layout
  of the source, twice its height and twice its width.
\<close>

definition upsampleDst :: "TensorAccessor3D \<Rightarrow> nat \<Rightarrow> TensorAccessor3D" where
  "upsampleDst src p = accessorChw16c p (accC src) (2 * accH src) (2 * accW src)"

definition loadBlock :: "(nat \<Rightarrow> 'v) \<Rightarrow> nat \<Rightarrow> nat \<Rightarrow> 'v list" where
  "loadBlock mem p n = map (\<lambda>k. mem (p + k)) [0 ..< n]"

definition storeBlock :: "(nat \<Rightarrow> 'v) \<Rightarrow> nat \<Rightarrow> 'v list \<Rightarrow> (nat \<Rightarrow> 'v)" where
  "storeBlock mem p vs = (\<lambda>a. if p \<le> a \<and> a < p + length vs then vs ! (a - p) else mem a)"

text \<open>\<open>SYCLUpsampleKernel::operator()\<close> for the work item \<open>(hSrc, wSrc)\<close>.\<close>

definition SYCLUpsampleKernel ::
  "TensorAccessor3D \<Rightarrow> TensorAccessor3D \<Rightarrow> nat \<times> nat \<Rightarrow> (nat \<Rightarrow> 'v) \<Rightarrow> (nat \<Rightarrow> 'v)" where
  "SYCLUpsampleKernel src dst item mem =
     (case item of (hSrc, wSrc) \<Rightarrow>
        let hSrcOffset = hSrc * hStride src;
            wSrcOffset = wSrc * wStride src;
            srcOffset = hSrcOffset + wSrcOffset;
            dstOffset = hSrcOffset * 4 + wSrcOffset * 2;
            srcPtr = ptr src + srcOffset;
            dstPtr0 = ptr dst + dstOffset;
            dstPtr2 = dstPtr0 + hStride dst;
            v = loadBlock mem srcPtr blockB;
            v2 = concat (replicate 2 v)
        in storeBlock (storeBlock mem dstPtr0 v2) dstPtr2 v2)"

text \<open>
  \<open>runESIMDKernel\<close> runs the kernel once for every work item of a two-dimensional
  range. The work items are taken here one after the other, in row-major order.
\<close>

definition workItems :: "nat \<Rightarrow> nat \<Rightarrow> (nat \<times> nat) list" where
  "workItems n0 n1 = concat (map (\<lambda>i0. map (\<lambda>i1. (i0, i1)) [0 ..< n1]) [0 ..< n0])"

definition runESIMDKernel ::
  "nat \<Rightarrow> nat \<Rightarrow> (nat \<times> nat \<Rightarrow> (nat \<Rightarrow> 'v) \<Rightarrow> (nat \<Rightarrow> 'v)) \<Rightarrow> (nat \<Rightarrow> 'v) \<Rightarrow> (nat \<Rightarrow> 'v)" where
  "runESIMDKernel n0 n1 f mem = fold f (workItems n0 n1) mem"

text \<open>\<open>SYCLUpsample::run\<close>: the range is \<open>src.H * src.CB\<close> by \<open>src.W\<close>.\<close>

definition SYCLUpsample_run ::
  "TensorAccessor3D \<Rightarrow> TensorAccessor3D \<Rightarrow> (nat \<Rightarrow> 'v) \<Rightarrow> (nat \<Rightarrow> 'v)" where
  "SYCLUpsample_run src dst mem =
     runESIMDKernel (accH src * (accC src div blockB)) (accW src) (SYCLUpsampleKernel src dst) mem"

text \<open>The cells a work item writes, and the cell it copies into the cell \<open>a\<close>.\<close>

definition itemTargets :: "nat \<Rightarrow> nat \<Rightarrow> nat \<times> nat \<Rightarrow> nat set" where
  "itemTargets dptr W item =
     (case item of (R, x) \<Rightarrow>
        {dptr + ((2 * R + dh) * (2 * W) + 2 * x + dw) * blockB + r | dh dw r.
           dh < 2 \<and> dw < 2 \<and> r < blockB})"

definition itemSource :: "nat \<Rightarrow> nat \<Rightarrow> nat \<Rightarrow> nat \<times> nat \<Rightarrow> nat \<Rightarrow> nat" where
  "itemSource sptr dptr W item a =
     (case item of (R, x) \<Rightarrow> sptr + (R * W + x) * blockB + (a - dptr) mod blockB)"

section \<open>Repacking weights and biases (Graph::reorderWeight, Graph::reorderBias)\<close>

text \<open>
  Modelled from the spec: a host-mapped tensor as the repacker sees it (\<open>Tensor\<close>
  and the accessors \<open>TensorAccessor4D\<close> and \<open>TensorAccessor1D\<close> are not among the
  source files): its data type and layout, its padded input channels and its logical
  length \<open>X\<close>, the extents \<open>O\<close>, \<open>H\<close>, \<open>W\<close> and \<open>X\<close> of its accessors, and its
  memory, a function from cells to elements. Where an accessor finds the element of an
  index is decided by the layout; it is the field \<open>at4\<close> (\<open>at1\<close> for a vector), of
  which the theorems only need that it sends different indices to different cells.
  Counts and indices are \<open>int\<close> in the source and never negative here; the loop
  variable \<open>o\<close> is written \<open>oc\<close>.
\<close>

datatype DataType = Float16 | Float32

datatype TensorLayout =
    L_x | L_chw | L_Chw8c | L_Chw16c | L_hwc
  | L_oihw | L_OIhw8i8o | L_OIhw16i16o | L_OIhw2o8i8o2i | L_OIhw8i16o2i | L_ohwi

record 'v Tensor =
  getDataType :: DataType
  getLayout :: TensorLayout
  getPaddedI :: nat
  getX :: nat
  accessorO :: nat
  accessorH :: nat
  accessorW :: nat
  accessorX :: nat
  at4 :: "nat \<times> nat \<times> nat \<times> nat \<Rightarrow> nat"
  at1 :: "nat \<Rightarrow> nat"
  cells :: "nat \<Rightarrow> 'v"

text \<open>
  \<open>tryReorderWeight<SrcT, DstT, srcLayout, dstLayout>\<close>. The template arguments are
  ordinary arguments (a type is given by its \<open>DataTypeOf\<close> value). The conversion
  \<open>DstT(value)\<close> of an element is the parameter \<open>convert\<close>. A failed \<open>assert\<close> is an
  error. The result is the function's \<open>bool\<close> and the destination tensor.
\<close>

definition tryReorderWeight ::
  "(DataType \<Rightarrow> DataType \<Rightarrow> 'v \<Rightarrow> 'v) \<Rightarrow> DataType \<Rightarrow> DataType \<Rightarrow> TensorLayout \<Rightarrow> TensorLayout
     \<Rightarrow> ('v::zero) Tensor \<Rightarrow> nat \<Rightarrow> nat \<Rightarrow> 'v Tensor \<Rightarrow> nat \<Rightarrow> nat \<Rightarrow> error + (bool \<times> 'v Tensor)" where
  "tryReorderWeight convert SrcT DstT srcLayout dstLayout src srcBeginI srcI dst dstBeginI dstI =
     (if \<not> srcBeginI + srcI \<le> getPaddedI src then Inl AssertionFailed
      else if \<not> dstBeginI + dstI \<le> getPaddedI dst then Inl AssertionFailed
      else if getDataType src \<noteq> SrcT \<or> getLayout src \<noteq> srcLayout \<or>
              getDataType dst \<noteq> DstT \<or> getLayout dst \<noteq> dstLayout
      then Inr (False, dst)
      else
        Inr (True,
          dst\<lparr>cells :=
            fold (\<lambda>oc.
              fold (\<lambda>i.
                fold (\<lambda>h.
                  fold (\<lambda>w mem.
                    let val = (if oc < accessorO src \<and> i < srcI
                               then cells src (at4 src (oc, srcBeginI + i, h, w))
                               else 0)
                    in mem(at4 dst (oc, dstBeginI + i, h, w) := convert SrcT DstT val))
                  [0 ..< accessorW dst])
                [0 ..< accessorH dst])
              [0 ..< dstI])
            [0 ..< accessorO dst] (cells dst)\<rparr>))"

text \<open>The instantiations \<open>reorderWeight\<close> tries, in its order.\<close>

definition weightInstances :: "(DataType \<times> DataType \<times> TensorLayout \<times> TensorLayout) list" where
  "weightInstances =
     [(Float16, Float16, L_oihw, L_oihw),
      (Float16, Float32, L_oihw, L_oihw),
      (Float16, Float16, L_oihw, L_OIhw8i8o),
      (Float16, Float32, L_oihw, L_OIhw8i8o),
      (Float16, Float16, L_oihw, L_OIhw16i16o),
      (Float16, Float32, L_oihw, L_OIhw16i16o),
      (Float16, Float16, L_oihw, L_OIhw2o8i8o2i),
      (Float16, Float16, L_oihw, L_OIhw8i16o2i),
      (Float16, Float16, L_oihw, L_ohwi),
      (Float16, Float32, L_oihw, L_ohwi)]"

fun tryWeightInstances ::
  "(DataType \<Rightarrow> DataType \<Rightarrow> 'v \<Rightarrow> 'v) \<Rightarrow> (DataType \<times> DataType \<times> TensorLayout \<times> TensorLayout) list
     \<Rightarrow> ('v::zero) Tensor \<Rightarrow> nat \<Rightarrow> nat \<Rightarrow> 'v Tensor \<Rightarrow> nat \<Rightarrow> nat \<Rightarrow> error + (bool \<times> 'v Tensor)" where
  "tryWeightInstances convert [] src srcBeginI srcI dst dstBeginI dstI = Inr (False, dst)"
| "tryWeightInstances convert ((SrcT, DstT, srcLayout, dstLayout) # rest)
       src srcBeginI srcI dst dstBeginI dstI =
     (case tryReorderWeight convert SrcT DstT srcLayout dstLayout
             src srcBeginI srcI dst dstBeginI dstI of
        Inl e \<Rightarrow> Inl e
      | Inr (ok, dst1) \<Rightarrow>
          if ok then Inr (True, dst1)
          else tryWeightInstances convert rest src srcBeginI srcI dst1 dstBeginI dstI)"

definition reorderWeight ::
  "(DataType \<Rightarrow> DataType \<Rightarrow> 'v \<Rightarrow> 'v) \<Rightarrow> ('v::zero) Tensor \<Rightarrow> nat \<Rightarrow> nat \<Rightarrow> 'v Tensor \<Rightarrow> nat \<Rightarrow> nat
     \<Rightarrow> error + 'v Tensor" where
  "reorderWeight convert src srcBeginI srcI dst dstBeginI dstI =
     (case tryWeightInstances convert weightInstances src srcBeginI srcI dst dstBeginI dstI of
        Inl e \<Rightarrow> Inl e
      | Inr (ok, dst1) \<Rightarrow>
          if \<not> ok then Inl (LogicError ''unsupported weight layout or data type'')
          else Inr dst1)"

definition tryReorderBias ::
  "(DataType \<Rightarrow> DataType \<Rightarrow> 'v \<Rightarrow> 'v) \<Rightarrow> DataType \<Rightarrow> DataType
     \<Rightarrow> ('v::zero) Tensor \<Rightarrow> 'v Tensor \<Rightarrow> bool \<times> 'v Tensor" where
  "tryReorderBias convert SrcT DstT src dst =
     (if getDataType src \<noteq> SrcT \<or> getDataType dst \<noteq> DstT then (False, dst)
      else
        let srcX = getX src;
            mem1 = fold (\<lambda>x mem. mem(at1 dst x := convert SrcT DstT (cells src (at1 src x))))
                     [0 ..< srcX] (cells dst);
            mem2 = fold (\<lambda>x mem. mem(at1 dst x := convert SrcT DstT 0))
                     [srcX ..< accessorX dst] mem1
        in (True, dst\<lparr>cells := mem2\<rparr>))"

definition reorderBias ::
  "(DataType \<Rightarrow> DataType \<Rightarrow> 'v \<Rightarrow> 'v) \<Rightarrow> ('v::zero) Tensor \<Rightarrow> 'v Tensor \<Rightarrow> error + 'v Tensor" where
  "reorderBias convert src dst =
     (if getLayout src = L_x \<and> getLayout dst = L_x
      then
        (case tryReorderBias convert Float16 Float16 src dst of
           (ok1, dst1) \<Rightarrow>
             if ok1 then Inr dst1
             else
               (case tryReorderBias convert Float16 Float32 src dst1 of
                  (ok2, dst2) \<Rightarrow>
                    if ok2 then Inr dst2
                    else Inl (LogicError ''unsupported bias layout or data type'')))
      else Inl (LogicError ''unsupported bias layout or data type''))"

text \<open>The indices of a destination that a call of the repacker writes.\<close>

definition writtenIndices :: "'v Tensor \<Rightarrow> nat \<Rightarrow> nat \<Rightarrow> (nat \<times> nat \<times> nat \<times> nat) set" where
  "writtenIndices dst dstBeginI dstI =
     {(oc, i, h, w). oc < accessorO dst \<and> dstBeginI \<le> i \<and> i < dstBeginI + dstI \<and>
                    h < accessorH dst \<and> w < accessorW dst}"

text \<open>
  What the claim says of a destination after repacking: read back through the
  accessor, a written index holds the source's element where the index lies inside
  the source's output channels and the copied input channels, and zero elsewhere
  (\<open>weightRepacked\<close>); a bias holds the source's elements and then zeros up to the
  destination's length (\<open>biasRepacked\<close>).
\<close>

definition weightRepacked ::
  "('v::zero) Tensor \<Rightarrow> nat \<Rightarrow> nat \<Rightarrow> 'v Tensor \<Rightarrow> nat \<Rightarrow> nat \<Rightarrow> 'v Tensor \<Rightarrow> bool" where
  "weightRepacked src srcBeginI srcI dst dstBeginI dstI dst1 =
     (\<forall>oc < accessorO dst. \<forall>i < dstI. \<forall>h < accessorH dst. \<forall>w < accessorW dst.
        cells dst1 (at4 dst1 (oc, dstBeginI + i, h, w)) =
          (if oc < accessorO src \<and> i < srcI
           then cells src (at4 src (oc, srcBeginI + i, h, w)) else 0))"

definition biasRepacked :: "('v::zero) Tensor \<Rightarrow> 'v Tensor \<Rightarrow> 'v Tensor \<Rightarrow> bool" where
  "biasRepacked src dst dst1 =
     ((\<forall>x < getX src. cells dst1 (at1 dst1 x) = cells src (at1 src x)) \<and>
      (\<forall>x < accessorX dst. getX src \<le> x \<longrightarrow> cells dst1 (at1 dst1 x) = 0))"

text \<open>Tensors for the examples: a 1 by 2 weight into a padded 2 by 4 one, a bias of 2 into 4.\<close>

definition exampleTensor ::
  "DataType \<Rightarrow> TensorLayout \<Rightarrow> nat \<Rightarrow> nat \<Rightarrow> nat \<Rightarrow> int Tensor" where
  "exampleTensor dt lay no ni fill =
     \<lparr> getDataType = dt, getLayout = lay, getPaddedI = ni, getX = ni,
       accessorO = no, accessorH = 1, accessorW = 1, accessorX = ni,
       at4 = (\<lambda>(oc, i, h, w). oc * ni + i), at1 = (\<lambda>x. x),
       cells = (\<lambda>a. int (fill + a)) \<rparr>"

definition exactConvert :: "DataType \<Rightarrow> DataType \<Rightarrow> int \<Rightarrow> int" where
  "exactConvert SrcT DstT v = v"

section \<open>Well-formed allocation records and the invariant of the planner\<close>

text \<open>
  The records of a chain in chain order, found by following \<open>next\<close> from a record for
  at most \<open>fuel\<close> records; \<open>None\<close> when the walk leaves the vector or does not end
  within \<open>fuel\<close> records.
\<close>

fun chainFrom :: "TensorAlloc list \<Rightarrow> nat \<Rightarrow> nat \<Rightarrow> nat list option" where
  "chainFrom allocs 0 i = None"
| "chainFrom allocs (Suc fuel) i =
     (if \<not> i < length allocs then None
      else
        (case next (allocs ! i) of
           None \<Rightarrow> Some [i]
         | Some j \<Rightarrow> map_option (Cons i) (chainFrom allocs fuel j)))"

text \<open>
  Well-formed records: every record's lifetime is an interval (\<open>firstOpID \<le> lastOpID\<close>);
  the links are mutual, so a record has at most one \<open>prev\<close> and one \<open>next\<close>
  (\<open>a.next = b\<close> exactly when \<open>b.prev = a\<close>); and the chains are acyclic: following
  \<open>next\<close> from any record ends.
\<close>

definition linksOk :: "TensorAlloc list \<Rightarrow> bool" where
  "linksOk allocs =
     list_all (\<lambda>i.
       (case next (allocs ! i) of
          None \<Rightarrow> True
        | Some j \<Rightarrow> j < length allocs \<and> prev (allocs ! j) = Some i) \<and>
       (case prev (allocs ! i) of
          None \<Rightarrow> True
        | Some j \<Rightarrow> j < length allocs \<and> next (allocs ! j) = Some i))
     [0 ..< length allocs]"

definition lifetimesOk :: "TensorAlloc list \<Rightarrow> bool" where
  "lifetimesOk allocs = list_all (\<lambda>a. firstOpID a \<le> lastOpID a) allocs"

definition chainsAcyclic :: "TensorAlloc list \<Rightarrow> bool" where
  "chainsAcyclic allocs =
     list_all (\<lambda>i. chainFrom allocs (length allocs) i \<noteq> None) [0 ..< length allocs]"

definition wellFormed :: "TensorAlloc list \<Rightarrow> bool" where
  "wellFormed allocs = (lifetimesOk allocs \<and> linksOk allocs \<and> chainsAcyclic allocs)"

text \<open>The records without their offsets: what planning does not change.\<close>

definition shape :: "TensorAlloc list \<Rightarrow> TensorAlloc list" where
  "shape allocs = map (\<lambda>a. a\<lparr>byteOffset := 0\<rparr>) allocs"

text \<open>What one round of the loop over a chain adds to the chunk.\<close>

definition accChunk :: "TensorAlloc list \<Rightarrow> nat \<Rightarrow> Chunk \<Rightarrow> Chunk" where
  "accChunk allocs m c =
     c\<lparr>chunkByteSize := size_add (chunkByteSize c) (byteSize (allocs ! m)),
       chunkFirstOpID := min (chunkFirstOpID c) (firstOpID (allocs ! m)),
       chunkLastOpID := max (chunkLastOpID c) (lastOpID (allocs ! m))\<rparr>"

text \<open>The records of the chain that starts at \<open>h\<close>, and the chunk the planner forms of them.\<close>

definition members :: "TensorAlloc list \<Rightarrow> nat \<Rightarrow> nat list" where
  "members allocs h = the (chainFrom allocs (length allocs) h)"

definition chunkOf :: "TensorAlloc list \<Rightarrow> nat \<Rightarrow> Chunk" where
  "chunkOf allocs h = fold (accChunk allocs) (members allocs h) (initChunk allocs h)"

definition heads :: "TensorAlloc list \<Rightarrow> nat list" where
  "heads allocs = filter (\<lambda>i. prev (allocs ! i) = None) [0 ..< length allocs]"

definition sizesOf :: "TensorAlloc list \<Rightarrow> nat list \<Rightarrow> nat" where
  "sizesOf allocs ms = sum_list (map (\<lambda>m. byteSize (allocs ! m)) ms)"

text \<open>
  Two records whose lifetimes (intervals of opIDs) overlap, and two records whose byte
  extents do not meet.
\<close>

definition lifetimesOverlap :: "TensorAlloc \<Rightarrow> TensorAlloc \<Rightarrow> bool" where
  "lifetimesOverlap a b = (firstOpID a \<le> lastOpID b \<and> firstOpID b \<le> lastOpID a)"

definition byteExtent :: "TensorAlloc \<Rightarrow> nat set" where
  "byteExtent a = {byteOffset a ..< byteOffset a + byteSize a}"

definition endOf :: "TensorAlloc list \<Rightarrow> nat \<Rightarrow> nat" where
  "endOf allocs i = byteOffset (allocs ! i) + byteSize (allocs ! i)"

definition overlapsChunk :: "TensorAlloc list \<Rightarrow> Chunk \<Rightarrow> nat \<Rightarrow> bool" where
  "overlapsChunk allocs c i =
     (\<not> (lastOpID (allocs ! i) < chunkFirstOpID c \<or> firstOpID (allocs ! i) > chunkLastOpID c))"

definition safeAt :: "TensorAlloc list \<Rightarrow> Chunk \<Rightarrow> nat set \<Rightarrow> nat \<Rightarrow> bool" where
  "safeAt allocs c D off =
     (\<forall>d \<in> D. overlapsChunk allocs c d \<longrightarrow>
        endOf allocs d \<le> off \<or> off + chunkByteSize c \<le> byteOffset (allocs ! d))"

definition sortedOff :: "TensorAlloc list \<Rightarrow> nat list \<Rightarrow> bool" where
  "sortedOff allocs act = sorted (map (\<lambda>i. byteOffset (allocs ! i)) act)"

text \<open>The assignment loop over the records of a chain, given as a list.\<close>

fun assignAll ::
  "nat list \<Rightarrow> TensorAlloc list \<times> nat list \<times> nat \<Rightarrow> TensorAlloc list \<times> nat list \<times> nat" where
  "assignAll [] st = st"
| "assignAll (m # ms) (allocs, active, off) =
     (let allocs1 = allocs[m := (allocs ! m)\<lparr>byteOffset := off\<rparr>]
      in assignAll ms (allocs1, insertActive allocs1 m active,
                       size_add off (byteSize (allocs1 ! m))))"

text \<open>
  What the assignment loop has done to the records \<open>ms\<close> of a chain when it started at
  offset \<open>off\<close>: they lie one after the other from \<open>off\<close>, nothing else has changed, and
  the active list has gained them and is still sorted.
\<close>

definition assignedOk ::
  "TensorAlloc list \<Rightarrow> nat list \<Rightarrow> nat \<Rightarrow> nat list \<Rightarrow> TensorAlloc list \<Rightarrow> nat list \<Rightarrow> nat \<Rightarrow> bool" where
  "assignedOk A ms off act A' act' e =
     (shape A' = shape A \<and> e = off + sizesOf A ms \<and>
      set act' = set act \<union> set ms \<and> sortedOff A' act' \<and>
      (\<forall>i. i \<notin> set ms \<longrightarrow> A' ! i = A ! i) \<and>
      (\<forall>m \<in> set ms. off \<le> byteOffset (A' ! m) \<and> endOf A' m \<le> off + sizesOf A ms) \<and>
      (ms \<noteq> [] \<longrightarrow> byteOffset (A' ! hd ms) = off) \<and>
      (\<forall>k. Suc k < length ms \<longrightarrow> byteOffset (A' ! (ms ! Suc k)) = endOf A' (ms ! k)) \<and>
      (\<forall>m \<in> set ms. \<forall>m' \<in> set ms. m \<noteq> m' \<longrightarrow>
         endOf A' m \<le> byteOffset (A' ! m') \<or> endOf A' m' \<le> byteOffset (A' ! m)))"

text \<open>
  The invariant of the loop over the sorted chunks. \<open>P\<close> is the set of the records placed
  so far (the active list) and \<open>hw\<close> is \<open>tensorScratchByteSize\<close>: the placed records end
  below \<open>hw\<close>, two of them with overlapping lifetimes do not share a byte, and a placed
  record's successor is placed right behind it.
\<close>

definition planInv :: "TensorAlloc list \<Rightarrow> TensorAlloc list \<Rightarrow> nat set \<Rightarrow> nat \<Rightarrow> bool" where
  "planInv A0 A P hw =
     (shape A = shape A0 \<and>
      (\<forall>i \<in> P. i < length A \<and> endOf A i \<le> hw) \<and>
      (\<forall>a \<in> P. \<forall>b \<in> P. a \<noteq> b \<and> lifetimesOverlap (A ! a) (A ! b) \<longrightarrow>
         endOf A a \<le> byteOffset (A ! b) \<or> endOf A b \<le> byteOffset (A ! a)) \<and>
      (\<forall>a \<in> P. \<forall>b. next (A ! a) = Some b \<longrightarrow> b \<in> P \<and> byteOffset (A ! b) = endOf A a))"

definition placedSize :: "TensorAlloc list \<Rightarrow> nat set \<Rightarrow> nat" where
  "placedSize A P = (\<Sum>i \<in> P. byteSize (A ! i))"

text \<open>Records that share no byte whenever their lifetimes overlap, and chains laid out back to back.\<close>

definition noOverlap :: "TensorAlloc list \<Rightarrow> bool" where
  "noOverlap allocs =
     (\<forall>a < length allocs. \<forall>b < length allocs.
        a \<noteq> b \<and> lifetimesOverlap (allocs ! a) (allocs ! b) \<longrightarrow>
        byteExtent (allocs ! a) \<inter> byteExtent (allocs ! b) = {})"

definition chainsAdjacent :: "TensorAlloc list \<Rightarrow> bool" where
  "chainsAdjacent allocs =
     (\<forall>a < length allocs. \<forall>b. next (allocs ! a) = Some b \<longrightarrow>
        byteOffset (allocs ! b) = byteOffset (allocs ! a) + byteSize (allocs ! a))"

text \<open>
  A graph with a chain: two inputs of 50 and 70 bytes and an operation that reads both
  concatenated and writes 40 bytes.
\<close>

definition plainOp :: "string \<Rightarrow> Op" where
  "plainOp n = \<lparr> opName = n, opScratchAlignedSize = 0, opSupported = True \<rparr>"

definition concatGraph :: Graph where
  "concatGraph =
     (case addInputProcess (plainOp ''a'') \<lparr> alignedSize = 50 \<rparr> newGraph of
        Inl e \<Rightarrow> newGraph
      | Inr (g1, a) \<Rightarrow>
          (case addInputProcess (plainOp ''b'') \<lparr> alignedSize = 70 \<rparr> g1 of
             Inl e \<Rightarrow> newGraph
           | Inr (g2, b) \<Rightarrow>
               (case addOpDst (plainOp ''c'') [a, b] \<lparr> alignedSize = 40 \<rparr> True g2 of
                  Inl e \<Rightarrow> newGraph
                | Inr (g3, c) \<Rightarrow> g3)))"

definition concatAllocs :: "TensorAlloc list" where
  "concatAllocs =
     [(newTensorAlloc \<lparr> alignedSize = 50 \<rparr> 0)\<lparr>lastOpID := 2, next := Some 1\<rparr>,
      (newTensorAlloc \<lparr> alignedSize = 70 \<rparr> 1)\<lparr>lastOpID := 2, prev := Some 0\<rparr>,
      newTensorAlloc \<lparr> alignedSize = 40 \<rparr> 2]"

definition concatPlanned :: "TensorAlloc list" where
  "concatPlanned =
     [(newTensorAlloc \<lparr> alignedSize = 50 \<rparr> 0)\<lparr>lastOpID := 2, next := Some 1\<rparr>,
      (newTensorAlloc \<lparr> alignedSize = 70 \<rparr> 1)\<lparr>lastOpID := 2, prev := Some 0, byteOffset := 50\<rparr>,
      (newTensorAlloc \<lparr> alignedSize = 40 \<rparr> 2)\<lparr>byteOffset := 120\<rparr>]"

text \<open>
  A tile geometry whose counters lie between 1 and \<open>n\<close> and whose tile sizes lie
  between 0 and \<open>2\<^sup>2\<^sup>9\<close>.
\<close>

definition geomInRange :: "int \<Rightarrow> TileGeom \<Rightarrow> bool" where
  "geomInRange n g =
     (1 \<le> tileCountH g \<and> tileCountH g \<le> n \<and> 1 \<le> tileCountW g \<and> tileCountW g \<le> n \<and>
      0 \<le> tileH g \<and> tileH g \<le> 2 ^ 29 \<and> 0 \<le> tileW g \<and> tileW g \<le> 2 ^ 29)"

chapter \<open>Verified properties\<close>

section \<open>Scratch size\<close>

lemma scratchGraph_eq:
  "scratchGraph =
     \<lparr> ops = [scratchOp], scratch = None, opScratchByteSize = 0, tensorScratchByteSize = 0,
       constByteSize = 0, dirty = True, finalized = False,
       tensorAllocs = [newTensorAlloc \<lparr> alignedSize = 128 \<rparr> 0],
       tensorAllocsByOp = [0 \<mapsto> 0], lazyInits = [BindDst 0 0] \<rparr>"
  by (simp add: scratchGraph_def addInputProcess_def addOpDst_def addOp_def newGraph_def)


lemma planAllocations_scratchGraph:
  "planAllocations (setScratch b scratchGraph) =
     Some ((setScratch b scratchGraph)\<lparr>tensorScratchByteSize := 128, dirty := False\<rparr>)"
  by (simp add: scratchGraph_eq setScratch_def planAllocations_def initChunk_def
      newTensorAlloc_def sortChunks_def placeChunk_def SIZE_MAX_def size_add_def upt_rec)

lemma finalize_scratchGraph:
  "finalize (setScratch 4096 scratchGraph) = Some (Inr finalizedGraph)"
  by (simp add: finalize_def planAllocations_scratchGraph)
     (simp add: scratchGraph_eq setScratch_def cleanup_def finalizedGraph_def)

text \<open>
  C1 (the code departs from the claim). \<open>getScratchAlignedSize\<close> adds the member
  \<open>opScratchByteSize\<close>, which the planner never assigns, to the tensor high-water
  mark. For the graph with one operation that asks for 64 bytes of scratch and one
  tensor of 128 bytes it returns 128: the tensor high-water mark alone, not
  \<open>128 + 64\<close>, and not a value that exceeds the high-water mark.
\<close>

theorem C1_scratch_size_omits_op_scratch:
  "map_option fst (getScratchAlignedSize scratchGraph) = Some 128 \<and>
   map_option (tensorScratchByteSize \<circ> snd) (getScratchAlignedSize scratchGraph) = Some 128 \<and>
   maxOpScratch (ops scratchGraph) = 64"
proof -
  have "planAllocations scratchGraph =
          Some (scratchGraph\<lparr>tensorScratchByteSize := 128, dirty := False\<rparr>)"
    by (simp add: scratchGraph_eq planAllocations_def initChunk_def
        newTensorAlloc_def sortChunks_def placeChunk_def SIZE_MAX_def size_add_def upt_rec)
  moreover have "dirty scratchGraph" "opScratchByteSize scratchGraph = 0"
    by (simp_all add: scratchGraph_eq)
  moreover have "maxOpScratch (ops scratchGraph) = 64"
    by (simp add: scratchGraph_eq maxOpScratch_def scratchOp_def)
  ultimately show ?thesis
    by (simp add: getScratchAlignedSize_def size_add_def)
qed

section \<open>Clearing a graph\<close>

lemma addInputProcess_finalized:
  "finalized g \<Longrightarrow>
   addInputProcess op d g = Inl (LogicError ''graph cannot be changed after finalization'')"
  by (simp add: addInputProcess_def addOpDst_def addOp_def)

lemma addInputProcess_building:
  "\<not> finalized g \<Longrightarrow>
   addInputProcess op d g =
     Inr (g\<lparr>tensorAllocs := tensorAllocs g @ [newTensorAlloc d (int (length (ops g)))],
            tensorAllocsByOp := (tensorAllocsByOp g)(length (ops g) \<mapsto> length (tensorAllocs g)),
            ops := ops g @ [op], dirty := True,
            lazyInits := lazyInits g @ [BindDst (length (ops g)) (length (tensorAllocs g))]\<rparr>,
          length (ops g))"
  by (simp add: addInputProcess_def addOpDst_def addOp_def Let_def)

text \<open>
  C8, as the claim states it, fails: \<open>clear\<close> does not reset \<open>finalized\<close>, so on a
  graph that has been finalized an addition after \<open>clear\<close> still raises the
  add-after-finalize error.
\<close>

theorem C8_counterexample:
  "finalize (setScratch 4096 scratchGraph) = Some (Inr finalizedGraph) \<and>
   addInputProcess scratchOp \<lparr> alignedSize = 128 \<rparr> (clear finalizedGraph) =
     Inl (LogicError ''graph cannot be changed after finalization'')"
proof -
  have "finalized (clear finalizedGraph)"
    by (simp add: clear_def cleanup_def finalizedGraph_def)
  then show ?thesis
    by (simp add: finalize_scratchGraph addInputProcess_finalized)
qed

text \<open>
  C8 (amended). \<open>clear\<close> empties the graph (no operations, no allocation records, no
  lazy initialisations, no scratch buffer, all size counters zero, not dirty) and
  leaves \<open>finalized\<close> as it was. On a graph that has not been finalized, an operator
  addition after \<open>clear\<close> succeeds and yields the graph holding that one operation; on
  a graph that has been finalized, the addition after \<open>clear\<close> raises the
  add-after-finalize error.
\<close>

theorem C8_clear_keeps_finalized:
  "finalized (clear g) = finalized g \<and>
   ops (clear g) = [] \<and> tensorAllocs (clear g) = [] \<and> lazyInits (clear g) = [] \<and>
   tensorAllocsByOp (clear g) = Map.empty \<and> scratch (clear g) = None \<and>
   opScratchByteSize (clear g) = 0 \<and> tensorScratchByteSize (clear g) = 0 \<and>
   constByteSize (clear g) = 0 \<and> \<not> dirty (clear g) \<and>
   (\<not> finalized g \<longrightarrow>
      (\<exists>g1. addInputProcess op d (clear g) = Inr (g1, 0) \<and> ops g1 = [op] \<and>
            tensorAllocs g1 = [newTensorAlloc d 0] \<and> dirty g1 \<and> \<not> finalized g1)) \<and>
   (finalized g \<longrightarrow>
      addInputProcess op d (clear g) =
        Inl (LogicError ''graph cannot be changed after finalization''))"
proof -
  have fin: "finalized (clear g) = finalized g"
    by (simp add: clear_def cleanup_def)
  have empty: "ops (clear g) = []" "tensorAllocs (clear g) = []" "lazyInits (clear g) = []"
    "tensorAllocsByOp (clear g) = Map.empty" "scratch (clear g) = None"
    "opScratchByteSize (clear g) = 0" "tensorScratchByteSize (clear g) = 0"
    "constByteSize (clear g) = 0" "\<not> dirty (clear g)"
    by (simp_all add: clear_def cleanup_def)
  have build: "\<not> finalized g \<longrightarrow>
      (\<exists>g1. addInputProcess op d (clear g) = Inr (g1, 0) \<and> ops g1 = [op] \<and>
            tensorAllocs g1 = [newTensorAlloc d 0] \<and> dirty g1 \<and> \<not> finalized g1)"
    using fin empty by (simp add: addInputProcess_building)
  have stuck: "finalized g \<longrightarrow>
      addInputProcess op d (clear g) =
        Inl (LogicError ''graph cannot be changed after finalization'')"
    using fin by (simp add: addInputProcess_finalized)
  show ?thesis
    using fin empty build stuck by blast
qed

theorem C8_clear_keeps_finalized_witness:
  "\<not> finalized scratchGraph \<and> finalized finalizedGraph \<and>
   (\<exists>g1. addInputProcess scratchOp \<lparr> alignedSize = 128 \<rparr> (clear scratchGraph) = Inr (g1, 0) \<and>
         ops g1 = [scratchOp]) \<and>
   addInputProcess scratchOp \<lparr> alignedSize = 128 \<rparr> (clear finalizedGraph) =
     Inl (LogicError ''graph cannot be changed after finalization'')"
proof -
  have a: "\<not> finalized scratchGraph"
    by (simp add: scratchGraph_eq)
  have b: "finalized finalizedGraph"
    by (simp add: finalizedGraph_def)
  show ?thesis
    using a b
      C8_clear_keeps_finalized [of scratchGraph scratchOp "\<lparr> alignedSize = 128 \<rparr>"]
      C8_clear_keeps_finalized [of finalizedGraph scratchOp "\<lparr> alignedSize = 128 \<rparr>"]
    by blast
qed


section \<open>Weight selection\<close>

text \<open>
  C7, as the claim states it, fails: with color as the only input and \<open>cleanAux\<close>
  set, the combination is not a row of the table, yet \<open>init\<close> selects the blob \<open>ldr\<close>.
\<close>

theorem C7_counterexample:
  "userWeightsBlob cleanAuxColorOnly = None \<and>
   configRow cleanAuxColorOnly \<notin> set (map fst selectionTable) \<and>
   initWeights cleanAuxColorOnly = Inr (Some ''ldr'')"
  by (simp add: cleanAuxColorOnly_def configRow_def selectionTable_def initWeights_def
      checkParams_def getWeights_def formatIsNot_def sizeDiffers_def image64_def allBlobs_def)

lemma getWeights_row:
  assumes "userWeightsBlob f = None" and "getWeights f = Inr b"
    and "\<not> (directional f \<and> (hdr f \<or> srgb f))"
  shows "effectiveRow f \<in> set (map fst selectionTable)"
  using assms
  by (auto simp: getWeights_def effectiveRow_def selectionTable_def Let_def
      split: if_splits sum.splits)

text \<open>
  C7 (amended). With no user-supplied weights, \<open>init\<close> rejects with an error every
  configuration whose combination of present inputs and mode flags, after clearing the
  flags the selection does not read (\<open>cleanAux\<close> unless color, albedo and normal are
  all present; \<open>directional\<close> unless color is the only input), is not one of the
  eleven rows of the selection table.
\<close>

theorem C7_rejects_outside_table:
  assumes "userWeightsBlob f = None"
    and "effectiveRow f \<notin> set (map fst selectionTable)"
  shows "\<exists>e. initWeights f = Inl e"
proof (cases "checkParams f")
  case (Inl e)
  then show ?thesis by (simp add: initWeights_def)
next
  case (Inr u)
  then have nodir: "\<not> (directional f \<and> (hdr f \<or> srgb f))"
    by (auto simp: checkParams_def split: if_splits option.splits)
  show ?thesis
  proof (cases "getWeights f")
    case (Inl e)
    with Inr show ?thesis by (simp add: initWeights_def)
  next
    case gw: (Inr b)
    from getWeights_row [OF assms(1) gw nodir] assms(2) show ?thesis by simp
  qed
qed

theorem C7_rejects_outside_table_witness:
  "userWeightsBlob colorNormalOnly = None \<and>
   effectiveRow colorNormalOnly \<notin> set (map fst selectionTable) \<and>
   (\<exists>e. initWeights colorNormalOnly = Inl e)"
proof -
  have a: "userWeightsBlob colorNormalOnly = None"
    by (simp add: colorNormalOnly_def)
  have b: "effectiveRow colorNormalOnly \<notin> set (map fst selectionTable)"
    by (simp add: colorNormalOnly_def effectiveRow_def selectionTable_def)
  from C7_rejects_outside_table [OF a b] a b show ?thesis by simp
qed


section \<open>Activation of the convolutions\<close>

lemma SYCLConvDPAS_outputRow_nonneg:
  "v \<in> set (SYCLConvDPAS_outputRow convDesc accumRow biasVec) \<Longrightarrow> 0 \<le> v"
  by (auto simp: SYCLConvDPAS_outputRow_def)

lemma SYCLConvDPAS_outputRow_ignores_activation:
  "SYCLConvDPAS_outputRow (convDesc\<lparr>activation := a\<rparr>) accumRow biasVec =
   SYCLConvDPAS_outputRow convDesc accumRow biasVec"
  by (simp add: SYCLConvDPAS_outputRow_def)

text \<open>
  C9 (the code departs from the claim). \<open>buildModel\<close> builds \<open>dec_conv0\<close> with
  linear activation, but the DPAS convolution kernel clamps every output row at zero
  whatever the descriptor's activation is: for accumulators \<open>-2\<close> and bias \<open>1\<close> it
  stores \<open>0\<close>, where linear activation gives \<open>-1\<close>.
\<close>

theorem C9_dec_conv0_is_clamped:
  "map_of buildModelConvs ''dec_conv0'' = Some \<lparr>activation = NoActivation, postOp = NoPostOp\<rparr> \<and>
   SYCLConvDPAS_outputRow \<lparr>activation = NoActivation, postOp = NoPostOp\<rparr>
     (replicate 128 (-2 :: int)) (replicate 16 1) = replicate 128 0 \<and>
   applyActivation NoActivation (-2 + 1 :: int) = -1"
proof -
  have a: "map_of buildModelConvs ''dec_conv0'' = Some \<lparr>activation = NoActivation, postOp = NoPostOp\<rparr>"
    by (simp add: buildModelConvs_def)
  have "concat (replicate n (replicate m (1::int))) = replicate (n * m) 1" for n m
    by (induction n) (simp_all add: replicate_add)
  then have b: "concat (replicate blockOW (replicate 16 (1::int))) = replicate 128 1"
    by (simp add: blockOW_def)
  have c: "map2 (+) (replicate n (x::int)) (replicate n y) = replicate n (x + y)" for n x y
    by (induction n) simp_all
  have "SYCLConvDPAS_outputRow \<lparr>activation = NoActivation, postOp = NoPostOp\<rparr>
     (replicate 128 (-2 :: int)) (replicate 16 1) = replicate 128 0"
    by (simp add: SYCLConvDPAS_outputRow_def b c)
  with a show ?thesis by (simp add: applyActivation_def)
qed


section \<open>Tile sizes\<close>

lemma ceil_div_bounds:
  assumes "0 < b"
  shows "a \<le> ceil_div a b * b" and "(ceil_div a b - 1) * b < a"
proof -
  define n where "n = a + b - 1"
  define q where "q = n div b"
  have e: "n = q * b + n mod b"
    by (simp add: q_def)
  have m: "0 \<le> n mod b" "n mod b < b"
    using assms by simp_all
  have c: "ceil_div a b = q"
    by (simp add: ceil_div_def n_def q_def)
  show "a \<le> ceil_div a b * b"
    using e m by (simp add: c n_def)
  have "(q - 1) * b = q * b - b"
    by (simp add: algebra_simps)
  then show "(ceil_div a b - 1) * b < a"
    using e m by (simp add: c n_def)
qed

lemma round_up_ge: "0 < b \<Longrightarrow> a \<le> round_up a b"
  by (simp add: round_up_def ceil_div_bounds)

lemma ceil_div_pos: "0 < b \<Longrightarrow> 0 < a \<Longrightarrow> 0 < ceil_div a b"
  by (simp add: ceil_div_def pos_imp_zdiv_pos_iff)

lemma round_up_pos:
  assumes "0 < b" "0 < a"
  shows "0 < round_up a b"
  using round_up_ge [OF assms(1), of a] assms(2) by linarith

text \<open>The subdivision loop keeps every tile size either as first set or at least the minimum.\<close>

lemma subdivideLoop_tileSizeOk:
  assumes "subdivideLoop fuel bm mx ne H W ov al g = Some (Inr (g', fb))"
    and "1 \<le> H" "1 \<le> W" "0 \<le> ov" "1 \<le> al"
    and "tileSizeOk H ov al (tileH g)" "tileSizeOk W ov al (tileW g)"
    and "1 \<le> tileCountH g" "1 \<le> tileCountW g"
  shows "tileSizeOk H ov al (tileH g') \<and> tileSizeOk W ov al (tileW g')"
  using assms
proof (induction fuel arbitrary: g)
  case 0
  then show ?case by simp
next
  case (Suc fuel)
  have newOk: "tileSizeOk S ov al (max (round_up (ceil_div (S - 2 * ov) k) al + 2 * ov) (3 * ov))"
    if "1 \<le> S" "1 \<le> k" for S k
  proof (cases "0 < ov")
    case True
    then have "2 * ov < max (round_up (ceil_div (S - 2 * ov) k) al + 2 * ov) (3 * ov)"
      by linarith
    then show ?thesis by (simp add: tileSizeOk_def)
  next
    case False
    with \<open>0 \<le> ov\<close> have z: "ov = 0" by simp
    have "0 < ceil_div S k"
      using that by (intro ceil_div_pos) simp_all
    then have "0 < round_up (ceil_div S k) al"
      using \<open>1 \<le> al\<close> by (intro round_up_pos) simp_all
    then show ?thesis by (simp add: tileSizeOk_def z)
  qed
  let ?split = "(tileCountH g * tileCountW g) mod ne \<noteq> 0 \<or> \<not> bm mx g"
  show ?case
  proof (cases ?split)
    case False
    with Suc.prems(1) have "g' = g" by (simp add: Let_def)
    with Suc.prems show ?thesis by simp
  next
    case split: True
    show ?thesis
    proof (cases "tileH g > 3 * ov \<and> tileH g > tileW g")
      case True
      let ?g = "g\<lparr>tileCountH := tileCountH g + 1,
                   tileH := max (round_up (ceil_div (H - 2 * ov) (tileCountH g + 1)) al
                                 + 2 * ov) (3 * ov)\<rparr>"
      from Suc.prems(1) split True
      have run: "subdivideLoop fuel bm mx ne H W ov al ?g = Some (Inr (g', fb))"
        by (simp add: Let_def)
      have "tileSizeOk H ov al (tileH ?g)"
        using newOk [of H "tileCountH g + 1"] Suc.prems by simp
      then show ?thesis
        using Suc.IH [OF run] Suc.prems by simp
    next
      case notH: False
      show ?thesis
      proof (cases "tileW g > 3 * ov")
        case True
        let ?g = "g\<lparr>tileCountW := tileCountW g + 1,
                   tileW := max (round_up (ceil_div (W - 2 * ov) (tileCountW g + 1)) al
                                 + 2 * ov) (3 * ov)\<rparr>"
        from Suc.prems(1) split notH True
        have run: "subdivideLoop fuel bm mx ne H W ov al ?g = Some (Inr (g', fb))"
          by (auto simp: Let_def split: if_splits)
        have "tileSizeOk W ov al (tileW ?g)"
          using newOk [of W "tileCountW g + 1"] Suc.prems by simp
        then show ?thesis
          using Suc.IH [OF run] Suc.prems by simp
      next
        case False
        with Suc.prems(1) split notH have "g' = g"
          by (auto simp: Let_def split: if_splits)
        with Suc.prems show ?thesis by simp
      qed
    qed
  qed
qed

lemma initialTiles_ok:
  assumes "1 \<le> al"
  shows "tileSizeOk H ov al (tileH (initialTiles H W al))"
    and "tileSizeOk W ov al (tileW (initialTiles H W al))"
  using assms round_up_ge [of al H] round_up_ge [of al W]
  by (simp_all add: tileSizeOk_def initialTiles_def)

section \<open>One axis of the tile grid\<close>

lemma axis_one_tile:
  assumes "S \<le> T"
  shows "axisCount S ov T = 1"
  using assms by (simp add: axisCount_def)

lemma axis_many_tiles:
  assumes "T < S" "2 * ov < T"
  defines "C \<equiv> axisCount S ov T"
  shows "2 \<le> C" and "S - 2 * ov \<le> C * (T - 2 * ov)" and "(C - 1) * (T - 2 * ov) < S - 2 * ov"
proof -
  have pos: "0 < T - 2 * ov" using assms by simp
  have C: "C = ceil_div (S - 2 * ov) (T - 2 * ov)"
    using assms by (simp add: axisCount_def)
  show up: "S - 2 * ov \<le> C * (T - 2 * ov)"
    unfolding C by (rule ceil_div_bounds(1) [OF pos])
  show "(C - 1) * (T - 2 * ov) < S - 2 * ov"
    unfolding C by (rule ceil_div_bounds(2) [OF pos])
  show "2 \<le> C"
  proof (rule ccontr)
    assume "\<not> 2 \<le> C"
    then have "C \<le> 1" by simp
    then have "C * (T - 2 * ov) \<le> 1 * (T - 2 * ov)"
      using pos by (intro mult_right_mono) simp_all
    then have "C * (T - 2 * ov) \<le> T - 2 * ov"
      by (simp only: mult_1)
    with up assms(1) show False by linarith
  qed
qed

lemma axis_tile_is_bounds:
  assumes "1 \<le> S" "0 \<le> ov" "S \<le> T \<or> 2 * ov < T" "0 \<le> i" "i < axisCount S ov T"
  shows "axisBegin ov T i = axisBound S ov T (axisCount S ov T) i"
    and "axisEnd S ov T (axisCount S ov T) i = axisBound S ov T (axisCount S ov T) (i + 1)"
proof -
  let ?C = "axisCount S ov T"
  let ?s = "T - 2 * ov"
  show "axisBegin ov T i = axisBound S ov T ?C i"
    using assms by (simp add: axisBegin_def axisBound_def)
  show "axisEnd S ov T ?C i = axisBound S ov T ?C (i + 1)"
  proof (cases "S \<le> T")
    case True
    then have C1: "?C = 1" by (rule axis_one_tile)
    with assms have "i = 0" by simp
    with assms True C1 show ?thesis
      by (simp add: axisEnd_def axisBound_def)
  next
    case False
    with assms have big: "T < S" "2 * ov < T" by simp_all
    note many = axis_many_tiles [OF big]
    show ?thesis
    proof (cases "i < ?C - 1")
      case True
      then have "i + 1 \<le> ?C - 1" by simp
      then have "(i + 1) * ?s \<le> (?C - 1) * ?s"
        using big by (intro mult_right_mono) simp_all
      with many(3) have "(i + 1) * ?s < S - 2 * ov" by simp
      then have "T \<le> S - i * ?s"
        by (simp add: algebra_simps)
      then have "min (S - i * ?s) T = T" by simp
      with True assms(4) show ?thesis
        by (simp add: axisEnd_def axisBound_def algebra_simps)
    next
      case last: False
      with assms have i: "i = ?C - 1" by simp
      have "?C * ?s = i * ?s + ?s"
        by (simp add: i algebra_simps)
      with many(2) have "S - i * ?s \<le> T" by simp
      then have "min (S - i * ?s) T = S - i * ?s" by simp
      with last assms(4) i show ?thesis
        by (simp add: axisEnd_def axisBound_def)
    qed
  qed
qed

lemma axisBound_step:
  assumes "1 \<le> S" "0 \<le> ov" "S \<le> T \<or> 2 * ov < T" "0 \<le> i" "i < axisCount S ov T"
  shows "axisBound S ov T (axisCount S ov T) i < axisBound S ov T (axisCount S ov T) (i + 1)"
proof (cases "S \<le> T")
  case True
  then have "axisCount S ov T = 1" by (rule axis_one_tile)
  with assms show ?thesis by (simp add: axisBound_def)
next
  case False
  with assms have big: "T < S" "2 * ov < T" by simp_all
  note many = axis_many_tiles [OF big]
  let ?C = "axisCount S ov T"
  let ?s = "T - 2 * ov"
  have step: "(i + 1) * ?s = i * ?s + ?s" by (simp add: algebra_simps)
  show ?thesis
  proof (cases "i + 1 < ?C")
    case True
    with assms big step show ?thesis
      by (simp add: axisBound_def)
  next
    case False
    with assms have i: "i = ?C - 1" by simp
    from many(3) have "i * ?s + ov < S" using assms(2) by (simp add: i)
    with assms(1) many(1) show ?thesis
      by (simp add: axisBound_def i)
  qed
qed

lemma axisBound_mono:
  assumes "1 \<le> S" "0 \<le> ov" "S \<le> T \<or> 2 * ov < T" "0 \<le> i" "i < j" "j < axisCount S ov T"
  shows "axisBound S ov T (axisCount S ov T) (i + 1) \<le> axisBound S ov T (axisCount S ov T) j"
proof -
  have "\<not> S \<le> T"
    using assms axis_one_tile [of S T ov] by auto
  with assms have big: "T < S" "2 * ov < T" by auto
  have "(i + 1) * (T - 2 * ov) \<le> j * (T - 2 * ov)"
    using assms big by (intro mult_right_mono) simp_all
  with assms show ?thesis
    by (simp add: axisBound_def)
qed

lemma axisBound_ends:
  assumes "1 \<le> S" "0 \<le> ov" "S \<le> T \<or> 2 * ov < T"
  shows "axisBound S ov T (axisCount S ov T) 0 = 0"
    and "axisBound S ov T (axisCount S ov T) (axisCount S ov T) = S"
    and "1 \<le> axisCount S ov T"
proof -
  show c: "1 \<le> axisCount S ov T"
  proof (cases "S \<le> T")
    case True
    then show ?thesis by (simp add: axis_one_tile)
  next
    case False
    with assms have "T < S" "2 * ov < T" by simp_all
    from axis_many_tiles(1) [OF this] show ?thesis by simp
  qed
  show "axisBound S ov T (axisCount S ov T) 0 = 0"
    by (simp add: axisBound_def)
  show "axisBound S ov T (axisCount S ov T) (axisCount S ov T) = S"
    using c by (simp add: axisBound_def)
qed

lemma between_steps:
  "b 0 \<le> (y::int) \<Longrightarrow> y < b (int n) \<Longrightarrow> \<exists>i. 0 \<le> i \<and> i < int n \<and> b i \<le> y \<and> y < b (i + 1)"
proof (induction n)
  case 0
  then show ?case by simp
next
  case (Suc n)
  show ?case
  proof (cases "y < b (int n)")
    case True
    from Suc.IH [OF Suc.prems(1) True] obtain i
      where "0 \<le> i" "i < int n" "b i \<le> y" "y < b (i + 1)" by blast
    then show ?thesis by (intro exI [of _ i]) simp
  next
    case False
    with Suc.prems show ?thesis
      by (intro exI [of _ "int n"]) (simp add: add.commute)
  qed
qed

lemma axisTile_within:
  assumes "1 \<le> S" "0 \<le> ov" "S \<le> T \<or> 2 * ov < T" "0 \<le> i" "i < axisCount S ov T"
  shows "axisTile S ov T i \<subseteq> {0 ..< S}"
proof -
  let ?b = "axisBound S ov T (axisCount S ov T)"
  have lo: "0 \<le> ?b i"
  proof (cases "S \<le> T")
    case True
    then have "axisCount S ov T = 1" by (rule axis_one_tile)
    with assms have "i = 0" by simp
    then show ?thesis by (simp add: axisBound_def)
  next
    case False
    with assms have "0 \<le> T - 2 * ov" by simp
    with assms(4) have "0 \<le> i * (T - 2 * ov)" by (rule mult_nonneg_nonneg)
    with assms show ?thesis by (simp add: axisBound_def)
  qed
  have hi: "?b (i + 1) \<le> S"
  proof (cases "i + 1 < axisCount S ov T")
    case False
    with assms(1) show ?thesis by (simp add: axisBound_def)
  next
    case True
    have "\<not> S \<le> T"
      using True assms(4) axis_one_tile [of S T ov] by auto
    with assms have big: "T < S" "2 * ov < T" by auto
    from True have "i + 1 \<le> axisCount S ov T - 1" by simp
    then have "(i + 1) * (T - 2 * ov) \<le> (axisCount S ov T - 1) * (T - 2 * ov)"
      using big by (intro mult_right_mono) simp_all
    with axis_many_tiles(3) [OF big] have "(i + 1) * (T - 2 * ov) + ov \<le> S"
      using assms(2) by linarith
    with True assms(4) show ?thesis by (simp add: axisBound_def)
  qed
  show ?thesis
    using lo hi axis_tile_is_bounds [OF assms]
    by (auto simp: axisTile_def)
qed

lemma axisTile_covers:
  assumes "1 \<le> S" "0 \<le> ov" "S \<le> T \<or> 2 * ov < T" "0 \<le> y" "y < S"
  shows "\<exists>i. 0 \<le> i \<and> i < axisCount S ov T \<and> y \<in> axisTile S ov T i"
proof -
  let ?C = "axisCount S ov T"
  let ?b = "axisBound S ov T ?C"
  note ends = axisBound_ends [OF assms(1-3)]
  have "?b 0 \<le> y" using ends(1) assms(4) by simp
  moreover have "y < ?b (int (nat ?C))" using ends(2,3) assms(5) by simp
  ultimately obtain i where i: "0 \<le> i" "i < int (nat ?C)" "?b i \<le> y" "y < ?b (i + 1)"
    using between_steps [of ?b y "nat ?C"] by blast
  then have iC: "i < ?C" using ends(3) by simp
  from axis_tile_is_bounds [OF assms(1-3) i(1) iC] i(3,4)
  have "y \<in> axisTile S ov T i" by (simp add: axisTile_def)
  with i(1) iC show ?thesis by blast
qed

lemma axisTile_disjoint_lt:
  assumes "1 \<le> S" "0 \<le> ov" "S \<le> T \<or> 2 * ov < T" "0 \<le> i" "i < j" "j < axisCount S ov T"
  shows "axisTile S ov T i \<inter> axisTile S ov T j = {}"
proof -
  have iC: "i < axisCount S ov T" using assms by simp
  have j0: "0 \<le> j" using assms by simp
  from axis_tile_is_bounds [OF assms(1-4) iC] axis_tile_is_bounds [OF assms(1-3) j0 assms(6)]
    axisBound_mono [OF assms]
  show ?thesis by (auto simp: axisTile_def)
qed

lemma axisTile_disjoint:
  assumes "1 \<le> S" "0 \<le> ov" "S \<le> T \<or> 2 * ov < T"
    and "0 \<le> i" "i < axisCount S ov T" "0 \<le> j" "j < axisCount S ov T" "i \<noteq> j"
  shows "axisTile S ov T i \<inter> axisTile S ov T j = {}"
proof (cases "i < j")
  case True
  then show ?thesis using assms by (intro axisTile_disjoint_lt) simp_all
next
  case False
  with assms have "j < i" by simp
  then have "axisTile S ov T j \<inter> axisTile S ov T i = {}"
    using assms by (intro axisTile_disjoint_lt) simp_all
  then show ?thesis by blast
qed

section \<open>The tile grid\<close>

lemma tilePixels_outputTile:
  assumes "tileCountH g = axisCount H ov (tileH g)" "tileCountW g = axisCount W ov (tileW g)"
  shows "tilePixels (outputTile H W ov al g i j) =
           axisTile H ov (tileH g) i \<times> axisTile W ov (tileW g) j"
  using assms
  by (simp add: tilePixels_def outputTile_def Let_def axisTile_def axisBegin_def axisEnd_def
      algebra_simps)

lemma set_executeTiles:
  "set (executeTiles H W ov al g) =
     {outputTile H W ov al g i j | i j. 0 \<le> i \<and> i < tileCountH g \<and> 0 \<le> j \<and> j < tileCountW g}"
  by (auto simp: executeTiles_def) blast

lemma finalTileCounts_axis:
  "tileCountH (finalTileCounts H W ov g) = axisCount H ov (tileH (finalTileCounts H W ov g))"
  "tileCountW (finalTileCounts H W ov g) = axisCount W ov (tileW (finalTileCounts H W ov g))"
  "tileH (finalTileCounts H W ov g) = tileH g"
  "tileW (finalTileCounts H W ov g) = tileW g"
  by (simp_all add: finalTileCounts_def axisCount_def)

lemma grid_cover:
  assumes "1 \<le> H" "1 \<le> W" "0 \<le> ov"
    and "H \<le> tileH g \<or> 2 * ov < tileH g" "W \<le> tileW g \<or> 2 * ov < tileW g"
    and "tileCountH g = axisCount H ov (tileH g)" "tileCountW g = axisCount W ov (tileW g)"
  shows "tilesCover H W ov al g"
proof -
  have "(\<Union>t \<in> set (executeTiles H W ov al g). tilePixels t) \<subseteq> {0 ..< H} \<times> {0 ..< W}"
  proof
    fix p assume "p \<in> (\<Union>t \<in> set (executeTiles H W ov al g). tilePixels t)"
    then obtain i j where ij: "0 \<le> i" "i < tileCountH g" "0 \<le> j" "j < tileCountW g"
      and p: "p \<in> tilePixels (outputTile H W ov al g i j)"
      by (auto simp: set_executeTiles)
    from p have "p \<in> axisTile H ov (tileH g) i \<times> axisTile W ov (tileW g) j"
      by (simp add: tilePixels_outputTile [OF assms(6,7)])
    moreover have "axisTile H ov (tileH g) i \<subseteq> {0 ..< H}"
      using assms ij by (intro axisTile_within) simp_all
    moreover have "axisTile W ov (tileW g) j \<subseteq> {0 ..< W}"
      using assms ij by (intro axisTile_within) simp_all
    ultimately show "p \<in> {0 ..< H} \<times> {0 ..< W}" by auto
  qed
  moreover have "{0 ..< H} \<times> {0 ..< W} \<subseteq> (\<Union>t \<in> set (executeTiles H W ov al g). tilePixels t)"
  proof
    fix p :: "int \<times> int" assume "p \<in> {0 ..< H} \<times> {0 ..< W}"
    then obtain y x where p: "p = (y, x)" and y: "0 \<le> y" "y < H" and x: "0 \<le> x" "x < W"
      by auto
    from axisTile_covers [OF assms(1,3,4) y] obtain i
      where i: "0 \<le> i" "i < tileCountH g" "y \<in> axisTile H ov (tileH g) i"
      using assms(6) by auto
    from axisTile_covers [OF assms(2,3,5) x] obtain j
      where j: "0 \<le> j" "j < tileCountW g" "x \<in> axisTile W ov (tileW g) j"
      using assms(7) by auto
    have "p \<in> tilePixels (outputTile H W ov al g i j)"
      using i j p by (simp add: tilePixels_outputTile [OF assms(6,7)])
    moreover have "outputTile H W ov al g i j \<in> set (executeTiles H W ov al g)"
      using i j by (auto simp: set_executeTiles)
    ultimately show "p \<in> (\<Union>t \<in> set (executeTiles H W ov al g). tilePixels t)"
      by blast
  qed
  ultimately show ?thesis
    unfolding tilesCover_def by (rule equalityI)
qed

lemma grid_disjoint:
  assumes "1 \<le> H" "1 \<le> W" "0 \<le> ov"
    and "H \<le> tileH g \<or> 2 * ov < tileH g" "W \<le> tileW g \<or> 2 * ov < tileW g"
    and "tileCountH g = axisCount H ov (tileH g)" "tileCountW g = axisCount W ov (tileW g)"
  shows "tilesDisjoint H W ov al g"
  unfolding tilesDisjoint_def
proof (intro ballI impI)
  fix i j i' j'
  assume r: "i \<in> {0 ..< tileCountH g}" "j \<in> {0 ..< tileCountW g}"
    "i' \<in> {0 ..< tileCountH g}" "j' \<in> {0 ..< tileCountW g}" and ne: "(i, j) \<noteq> (i', j')"
  show "tilePixels (outputTile H W ov al g i j) \<inter> tilePixels (outputTile H W ov al g i' j') = {}"
  proof (cases "i = i'")
    case False
    have "axisTile H ov (tileH g) i \<inter> axisTile H ov (tileH g) i' = {}"
      using assms r False by (intro axisTile_disjoint) simp_all
    then show ?thesis
      by (auto simp: tilePixels_outputTile [OF assms(6,7)])
  next
    case True
    with ne have "j \<noteq> j'" by simp
    have "axisTile W ov (tileW g) j \<inter> axisTile W ov (tileW g) j' = {}"
      using assms r \<open>j \<noteq> j'\<close> by (intro axisTile_disjoint) simp_all
    then show ?thesis
      by (auto simp: tilePixels_outputTile [OF assms(6,7)])
  qed
qed

lemma initTiles_ok:
  assumes "initTiles fuel bm mx ne H W ov al = Some (Inr g)"
    and "1 \<le> H" "1 \<le> W" "0 \<le> ov" "1 \<le> al"
  shows "tileSizeOk H ov al (tileH g)" "tileSizeOk W ov al (tileW g)"
    "tileCountH g = axisCount H ov (tileH g)" "tileCountW g = axisCount W ov (tileW g)"
proof -
  from assms(1) obtain g0 fb
    where run: "subdivideLoop fuel bm mx ne H W ov al (initialTiles H W al) = Some (Inr (g0, fb))"
      and g: "g = finalTileCounts H W ov g0"
    by (auto simp: initTiles_def split: option.splits sum.splits)
  have ok: "tileSizeOk H ov al (tileH g0) \<and> tileSizeOk W ov al (tileW g0)"
    using subdivideLoop_tileSizeOk [OF run assms(2-5) initialTiles_ok [OF assms(5)]]
    by (simp add: initialTiles_def)
  show "tileSizeOk H ov al (tileH g)" "tileSizeOk W ov al (tileW g)"
    using ok by (simp_all add: g finalTileCounts_axis)
  show "tileCountH g = axisCount H ov (tileH g)" "tileCountW g = axisCount W ov (tileW g)"
    by (simp_all add: g finalTileCounts_axis)
qed

text \<open>
  The sizes of the numbers that \<open>init\<close> and the tile loop compute, for images of at
  most \<open>2\<^sup>2\<^sup>8\<close> rows and columns and an overlap and alignment of at most \<open>2\<^sup>2\<^sup>6\<close>.
\<close>

lemma ceil_div_le:
  assumes "0 < b"
  shows "ceil_div a b \<le> max a 0"
proof (cases "0 < a")
  case True
  have "ceil_div a b \<le> a"
  proof (rule ccontr)
    assume "\<not> ceil_div a b \<le> a"
    then have "a \<le> ceil_div a b - 1" by simp
    then have "a * b \<le> (ceil_div a b - 1) * b"
      using assms by (intro mult_right_mono) simp_all
    moreover have "a * 1 \<le> a * b"
      using True assms by (intro mult_left_mono) simp_all
    ultimately show False
      using ceil_div_bounds(2) [OF assms, of a] by simp
  qed
  with True show ?thesis by simp
next
  case False
  have "ceil_div a b \<le> 0"
  proof (rule ccontr)
    assume "\<not> ceil_div a b \<le> 0"
    then have "0 \<le> ceil_div a b - 1" by simp
    then have "0 \<le> (ceil_div a b - 1) * b"
      using assms by simp
    with ceil_div_bounds(2) [OF assms, of a] False show False by simp
  qed
  with False show ?thesis by simp
qed

lemma round_up_less: "0 < b \<Longrightarrow> round_up a b < a + b"
  using ceil_div_bounds(2) [of b a] by (simp add: round_up_def algebra_simps)

lemma newTile_in_range:
  assumes "1 \<le> S" "S \<le> 2 ^ 28" "0 \<le> ov" "ov \<le> 2 ^ 26" "1 \<le> al" "al \<le> 2 ^ 26" "1 \<le> k"
  shows "0 \<le> max (round_up (ceil_div (S - 2 * ov) k) al + 2 * ov) (3 * ov)"
    and "max (round_up (ceil_div (S - 2 * ov) k) al + 2 * ov) (3 * ov) \<le> 2 ^ 29"
proof -
  show "0 \<le> max (round_up (ceil_div (S - 2 * ov) k) al + 2 * ov) (3 * ov)"
    using assms(3) by simp
  have "ceil_div (S - 2 * ov) k \<le> max (S - 2 * ov) 0"
    using assms(7) by (intro ceil_div_le) simp
  then have "ceil_div (S - 2 * ov) k \<le> S"
    using assms(1,3) by simp
  moreover have "round_up (ceil_div (S - 2 * ov) k) al < ceil_div (S - 2 * ov) k + al"
    using assms(5) by (intro round_up_less) simp
  ultimately have "round_up (ceil_div (S - 2 * ov) k) al + 2 * ov < S + al + 2 * ov"
    by simp
  then show "max (round_up (ceil_div (S - 2 * ov) k) al + 2 * ov) (3 * ov) \<le> 2 ^ 29"
    using assms(2,4,6) by simp
qed

lemma subdivideLoop_in_range:
  assumes "subdivideLoop fuel bm mx ne H W ov al g = Some (Inr (g', fb))"
    and "1 \<le> H" "1 \<le> W" "0 \<le> ov" "1 \<le> al"
    and "H \<le> 2 ^ 28" "W \<le> 2 ^ 28" "ov \<le> 2 ^ 26" "al \<le> 2 ^ 26"
    and "geomInRange n g"
  shows "geomInRange (n + int fuel) g'"
  using assms(1,10)
proof (induction fuel arbitrary: g n)
  case 0
  then show ?case by simp
next
  case (Suc fuel)
  note r = Suc.prems(2) [unfolded geomInRange_def]
  have stay: "geomInRange (n + int (Suc fuel)) g"
    using r by (simp add: geomInRange_def)
  let ?split = "(tileCountH g * tileCountW g) mod ne \<noteq> 0 \<or> \<not> bm mx g"
  show ?case
  proof (cases ?split)
    case False
    with Suc.prems(1) have "g' = g" by (simp add: Let_def)
    with stay show ?thesis by simp
  next
    case split: True
    show ?thesis
    proof (cases "tileH g > 3 * ov \<and> tileH g > tileW g")
      case True
      let ?g = "g\<lparr>tileCountH := tileCountH g + 1,
                   tileH := max (round_up (ceil_div (H - 2 * ov) (tileCountH g + 1)) al
                                 + 2 * ov) (3 * ov)\<rparr>"
      from Suc.prems(1) split True
      have run: "subdivideLoop fuel bm mx ne H W ov al ?g = Some (Inr (g', fb))"
        by (simp add: Let_def)
      have k: "1 \<le> tileCountH g + 1" using r by simp
      have "geomInRange (n + 1) ?g"
        using newTile_in_range [OF assms(2,6,4,8,5,9) k] r
        by (simp add: geomInRange_def)
      from Suc.IH [OF run this] show ?thesis
        by (simp add: algebra_simps)
    next
      case notH: False
      show ?thesis
      proof (cases "tileW g > 3 * ov")
        case True
        let ?g = "g\<lparr>tileCountW := tileCountW g + 1,
                   tileW := max (round_up (ceil_div (W - 2 * ov) (tileCountW g + 1)) al
                                 + 2 * ov) (3 * ov)\<rparr>"
        from Suc.prems(1) split notH True
        have run: "subdivideLoop fuel bm mx ne H W ov al ?g = Some (Inr (g', fb))"
          by (auto simp: Let_def split: if_splits)
        have k: "1 \<le> tileCountW g + 1" using r by simp
        have "geomInRange (n + 1) ?g"
          using newTile_in_range [OF assms(3,7,4,8,5,9) k] r
          by (simp add: geomInRange_def)
        from Suc.IH [OF run this] show ?thesis
          by (simp add: algebra_simps)
      next
        case False
        with Suc.prems(1) split notH have "g' = g"
          by (auto simp: Let_def split: if_splits)
        with stay show ?thesis by simp
      qed
    qed
  qed
qed

lemma initialTiles_in_range:
  assumes "1 \<le> H" "1 \<le> W" "1 \<le> al" "H \<le> 2 ^ 28" "W \<le> 2 ^ 28" "al \<le> 2 ^ 26"
  shows "geomInRange 1 (initialTiles H W al)"
proof -
  have "H \<le> round_up H al" "round_up H al < H + al" "W \<le> round_up W al"
    "round_up W al < W + al"
    using assms(3) by (simp_all add: round_up_ge round_up_less)
  with assms show ?thesis
    by (simp add: geomInRange_def initialTiles_def)
qed

lemma axisCount_in_range:
  assumes "1 \<le> S" "0 \<le> ov" "S \<le> T \<or> 2 * ov < T"
  shows "1 \<le> axisCount S ov T" and "axisCount S ov T \<le> S"
proof -
  show "1 \<le> axisCount S ov T"
    by (rule axisBound_ends(3) [OF assms])
  show "axisCount S ov T \<le> S"
  proof (cases "S \<le> T")
    case True
    with assms(1) show ?thesis by (simp add: axis_one_tile)
  next
    case False
    with assms have big: "T < S" "2 * ov < T" by simp_all
    note many = axis_many_tiles [OF big]
    have "(axisCount S ov T - 1) * 1 \<le> (axisCount S ov T - 1) * (T - 2 * ov)"
      using many(1) big(2) by (intro mult_left_mono) simp_all
    with many(3) assms(2) show ?thesis by simp
  qed
qed

lemma initTiles_in_range:
  assumes "initTiles fuel bm mx ne H W ov al = Some (Inr g)"
    and "1 \<le> H" "1 \<le> W" "0 \<le> ov" "1 \<le> al"
    and "H \<le> 2 ^ 28" "W \<le> 2 ^ 28" "ov \<le> 2 ^ 26" "al \<le> 2 ^ 26"
  shows "1 \<le> tileH g \<and> tileH g \<le> 2 ^ 29 \<and> 1 \<le> tileW g \<and> tileW g \<le> 2 ^ 29 \<and>
         1 \<le> tileCountH g \<and> tileCountH g \<le> H \<and>
         1 \<le> tileCountW g \<and> tileCountW g \<le> W"
proof -
  from assms(1) obtain g0 fb
    where run: "subdivideLoop fuel bm mx ne H W ov al (initialTiles H W al) = Some (Inr (g0, fb))"
      and g: "g = finalTileCounts H W ov g0"
    by (auto simp: initTiles_def split: option.splits sum.splits)
  from subdivideLoop_in_range [OF run assms(2-9) initialTiles_in_range [OF assms(2,3,5,6,7,9)]]
  have "tileH g0 \<le> 2 ^ 29" "tileW g0 \<le> 2 ^ 29"
    by (simp_all add: geomInRange_def)
  then have up: "tileH g \<le> 2 ^ 29" "tileW g \<le> 2 ^ 29"
    by (simp_all add: g finalTileCounts_axis)
  note ok = initTiles_ok [OF assms(1-5)]
  have h: "H \<le> tileH g \<or> 2 * ov < tileH g" and w: "W \<le> tileW g \<or> 2 * ov < tileW g"
    using ok(1,2) by (simp_all add: tileSizeOk_def)
  have lo: "1 \<le> tileH g" "1 \<le> tileW g"
    using h w assms(2,3,4) by auto
  note cH = axisCount_in_range [OF assms(2,4) h]
  note cW = axisCount_in_range [OF assms(3,4) w]
  show ?thesis
    using up lo cH cW by (simp add: ok(3,4))
qed

lemma axis_in_range:
  assumes "1 \<le> S" "0 \<le> ov" "S \<le> T \<or> 2 * ov < T" "0 \<le> i" "i < axisCount S ov T"
    and "1 \<le> al"
  shows "0 \<le> i * (T - 2 * ov)" and "i * (T - 2 * ov) \<le> axisBegin ov T i"
    and "0 \<le> axisBegin ov T i"
    and "axisBegin ov T i < axisEnd S ov T (axisCount S ov T) i"
    and "axisEnd S ov T (axisCount S ov T) i \<le> S"
    and "1 \<le> min (S - i * (T - 2 * ov)) T"
    and "- al < T - round_up (min (S - i * (T - 2 * ov)) T) al"
    and "T - round_up (min (S - i * (T - 2 * ov)) T) al < T"
proof -
  let ?C = "axisCount S ov T"
  let ?h = "i * (T - 2 * ov)"
  note bd = axis_tile_is_bounds [OF assms(1-5)]
  have lt: "axisBegin ov T i < axisEnd S ov T ?C i"
    using axisBound_step [OF assms(1-5)] by (simp add: bd)
  then have ne: "axisBegin ov T i \<in> axisTile S ov T i" "axisEnd S ov T ?C i - 1 \<in> axisTile S ov T i"
    by (simp_all add: axisTile_def)
  with axisTile_within [OF assms(1-5)]
  have "axisBegin ov T i \<in> {0 ..< S}" "axisEnd S ov T ?C i - 1 \<in> {0 ..< S}"
    by blast+
  then show b0: "0 \<le> axisBegin ov T i" and eS: "axisEnd S ov T ?C i \<le> S"
    by simp_all
  show h0: "0 \<le> ?h"
  proof (cases "i = 0")
    case True
    then show ?thesis by simp
  next
    case False
    with assms(4,5) have "1 < ?C" by simp
    then have "\<not> S \<le> T" using axis_one_tile [of S T ov] by auto
    with assms(3) have "0 \<le> T - 2 * ov" by simp
    with assms(4) show ?thesis by simp
  qed
  show hb: "?h \<le> axisBegin ov T i"
    using assms(2) by (simp add: axisBegin_def)
  show "axisBegin ov T i < axisEnd S ov T ?C i" by (rule lt)
  have "0 \<le> (if i < ?C - 1 then ov else 0)"
    using assms(2) by simp
  then have "?h + min (S - ?h) T - (if i < ?C - 1 then ov else 0) \<le> ?h + min (S - ?h) T"
    by (simp only: diff_le_eq le_add_same_cancel1)
  then have "axisEnd S ov T ?C i \<le> ?h + min (S - ?h) T"
    by (simp only: axisEnd_def)
  with lt hb show m1: "1 \<le> min (S - ?h) T" by linarith
  have "min (S - ?h) T \<le> round_up (min (S - ?h) T) al"
    using assms(6) by (intro round_up_ge) simp
  with m1 show "T - round_up (min (S - ?h) T) al < T" by linarith
  have "round_up (min (S - ?h) T) al < min (S - ?h) T + al"
    using assms(6) by (intro round_up_less) simp
  then show "- al < T - round_up (min (S - ?h) T) al" by linarith
qed

lemma outputTile_in_range:
  assumes "initTiles fuel bm mx ne H W ov al = Some (Inr g)"
    and "1 \<le> H" "1 \<le> W" "0 \<le> ov" "1 \<le> al"
    and "H \<le> 2 ^ 28" "W \<le> 2 ^ 28" "ov \<le> 2 ^ 26" "al \<le> 2 ^ 26"
    and "0 \<le> i" "i < tileCountH g" "0 \<le> j" "j < tileCountW g"
  shows "0 \<le> tileDstH (outputTile H W ov al g i j) \<and>
         0 < tileSizeH (outputTile H W ov al g i j) \<and>
         tileDstH (outputTile H W ov al g i j) + tileSizeH (outputTile H W ov al g i j) \<le> H \<and>
         - (2 ^ 26) < tileSrcH (outputTile H W ov al g i j) \<and>
         tileSrcH (outputTile H W ov al g i j) < 2 ^ 30"
    and "0 \<le> tileDstW (outputTile H W ov al g i j) \<and>
         0 < tileSizeW (outputTile H W ov al g i j) \<and>
         tileDstW (outputTile H W ov al g i j) + tileSizeW (outputTile H W ov al g i j) \<le> W \<and>
         - (2 ^ 26) < tileSrcW (outputTile H W ov al g i j) \<and>
         tileSrcW (outputTile H W ov al g i j) < 2 ^ 30"
proof -
  note ok = initTiles_ok [OF assms(1-5)]
  note rg = initTiles_in_range [OF assms(1-9)]
  have h: "H \<le> tileH g \<or> 2 * ov < tileH g" and w: "W \<le> tileW g \<or> 2 * ov < tileW g"
    using ok(1,2) by (simp_all add: tileSizeOk_def)
  have iC: "i < axisCount H ov (tileH g)" and jC: "j < axisCount W ov (tileW g)"
    using assms(11,13) ok(3,4) by simp_all
  note aH = axis_in_range [OF assms(2,4) h assms(10) iC assms(5)]
  note aW = axis_in_range [OF assms(3,4) w assms(12) jC assms(5)]
  have dH: "tileDstH (outputTile H W ov al g i j) = axisBegin ov (tileH g) i"
    and eH: "tileDstH (outputTile H W ov al g i j) + tileSizeH (outputTile H W ov al g i j) =
      axisEnd H ov (tileH g) (axisCount H ov (tileH g)) i"
    and sH: "tileSrcH (outputTile H W ov al g i j) =
      tileH g - round_up (min (H - i * (tileH g - 2 * ov)) (tileH g)) al +
        (if i > 0 then ov else 0)"
    by (simp_all add: outputTile_def Let_def axisBegin_def axisEnd_def ok(3) algebra_simps)
  have dW: "tileDstW (outputTile H W ov al g i j) = axisBegin ov (tileW g) j"
    and eW: "tileDstW (outputTile H W ov al g i j) + tileSizeW (outputTile H W ov al g i j) =
      axisEnd W ov (tileW g) (axisCount W ov (tileW g)) j"
    and sW: "tileSrcW (outputTile H W ov al g i j) =
      tileW g - round_up (min (W - j * (tileW g - 2 * ov)) (tileW g)) al +
        (if j > 0 then ov else 0)"
    by (simp_all add: outputTile_def Let_def axisBegin_def axisEnd_def ok(4) algebra_simps)
  show "0 \<le> tileDstH (outputTile H W ov al g i j) \<and>
         0 < tileSizeH (outputTile H W ov al g i j) \<and>
         tileDstH (outputTile H W ov al g i j) + tileSizeH (outputTile H W ov al g i j) \<le> H \<and>
         - (2 ^ 26) < tileSrcH (outputTile H W ov al g i j) \<and>
         tileSrcH (outputTile H W ov al g i j) < 2 ^ 30"
    using aH(3,4,5,7,8) rg assms(4,8,9) unfolding eH [symmetric] dH [symmetric] sH
    by auto
  show "0 \<le> tileDstW (outputTile H W ov al g i j) \<and>
         0 < tileSizeW (outputTile H W ov al g i j) \<and>
         tileDstW (outputTile H W ov al g i j) + tileSizeW (outputTile H W ov al g i j) \<le> W \<and>
         - (2 ^ 26) < tileSrcW (outputTile H W ov al g i j) \<and>
         tileSrcW (outputTile H W ov al g i j) < 2 ^ 30"
    using aW(3,4,5,7,8) rg assms(4,8,9) unfolding eW [symmetric] dW [symmetric] sW
    by auto
qed

text \<open>
  C5. For every output image size \<open>H \<ge> 1\<close>, \<open>W \<ge> 1\<close> (with an overlap that is not
  negative and an alignment of at least 1) and the tile geometry that \<open>init\<close>
  computes, the output tile rectangles of the tile loop of \<open>execute\<close> are pairwise
  disjoint and their union is exactly \<open>[0, H) \<times> [0, W)\<close>.

  The source computes in 32-bit \<open>int\<close>, where \<open>round_up(H, alignment)\<close> overflows for
  an \<open>H\<close> within \<open>alignment\<close> of \<open>INT_MAX\<close>. The statement is therefore for sizes
  on which that arithmetic is exact: \<open>H, W \<le> 2\<^sup>2\<^sup>8\<close>, fewer than \<open>2\<^sup>3\<^sup>1\<close> pixels (the
  tile loop counts the tiles), \<open>overlap, alignment \<le> 2\<^sup>2\<^sup>6\<close>, and a subdivision loop
  that ends within \<open>2\<^sup>1\<^sup>5\<close> rounds (its counters grow by one per round and their
  product is taken). Lemmas \<open>subdivideLoop_in_range\<close>, \<open>initTiles_in_range\<close>,
  \<open>axis_in_range\<close> and \<open>outputTile_in_range\<close> bound what is computed then: the loop's
  counters by the number of rounds plus one, the tile sizes by \<open>2\<^sup>2\<^sup>9\<close>, the final tile
  counts by the image size, \<open>i * (tileH - 2 * overlap)\<close> and each tile's rectangle by
  the image, and each tile's offset in the tile buffer by \<open>2\<^sup>3\<^sup>0\<close>; all are inside the
  range of \<open>int\<close>.
\<close>

theorem C5_tiles_partition_image:
  assumes "1 \<le> H" "1 \<le> W" "0 \<le> overlap" "1 \<le> alignment"
    and "H \<le> 2 ^ 28" "W \<le> 2 ^ 28" "overlap \<le> 2 ^ 26" "alignment \<le> 2 ^ 26"
    and "H * W < 2 ^ 31" "fuel \<le> 2 ^ 15"
    and "initTiles fuel buildModel maxMemoryByteSize numEngines H W overlap alignment = Some (Inr g)"
  shows "tilesCover H W overlap alignment g \<and> tilesDisjoint H W overlap alignment g"
proof -
  note ok = initTiles_ok [OF assms(11,1,2,3,4)]
  have h: "H \<le> tileH g \<or> 2 * overlap < tileH g"
    using ok(1) by (simp add: tileSizeOk_def)
  have w: "W \<le> tileW g \<or> 2 * overlap < tileW g"
    using ok(2) by (simp add: tileSizeOk_def)
  show ?thesis
    using grid_cover [OF assms(1-3) h w ok(3,4)] grid_disjoint [OF assms(1-3) h w ok(3,4)]
    by simp
qed


lemma subdivideLoop_1024:
  "subdivideLoop (Suc (Suc (Suc 0))) pixelBudgetModel 300000 2 1024 1024 16 32
     (initialTiles 1024 1024 32) = Some (Inr (tiles544, False))"
  apply (simp add: initialTiles_def pixelBudgetModel_def round_up_def ceil_div_def Let_def)
  apply (simp add: tiles544_def)
  done

lemma subdivideLoop_min:
  assumes "subdivideLoop fuel bm mx ne H W ov al g = Some (Inr (g', fb))"
    and "tileH g = round_up H al \<or> 3 * ov \<le> tileH g"
    and "tileW g = round_up W al \<or> 3 * ov \<le> tileW g"
  shows "(tileH g' = round_up H al \<or> 3 * ov \<le> tileH g') \<and>
         (tileW g' = round_up W al \<or> 3 * ov \<le> tileW g')"
  using assms
proof (induction fuel arbitrary: g)
  case 0
  then show ?case by simp
next
  case (Suc fuel)
  show ?case
  proof (cases "(tileCountH g * tileCountW g) mod ne \<noteq> 0 \<or> \<not> bm mx g")
    case False
    with Suc.prems(1) have "g' = g" by (simp add: Let_def)
    with Suc.prems show ?thesis by simp
  next
    case split: True
    show ?thesis
    proof (cases "tileH g > 3 * ov \<and> tileH g > tileW g")
      case True
      let ?g = "g\<lparr>tileCountH := tileCountH g + 1,
                   tileH := max (round_up (ceil_div (H - 2 * ov) (tileCountH g + 1)) al
                                 + 2 * ov) (3 * ov)\<rparr>"
      from Suc.prems(1) split True
      have run: "subdivideLoop fuel bm mx ne H W ov al ?g = Some (Inr (g', fb))"
        by (simp add: Let_def)
      show ?thesis
        using Suc.IH [OF run] Suc.prems(3) by simp
    next
      case notH: False
      show ?thesis
      proof (cases "tileW g > 3 * ov")
        case True
        let ?g = "g\<lparr>tileCountW := tileCountW g + 1,
                   tileW := max (round_up (ceil_div (W - 2 * ov) (tileCountW g + 1)) al
                                 + 2 * ov) (3 * ov)\<rparr>"
        from Suc.prems(1) split notH True
        have run: "subdivideLoop fuel bm mx ne H W ov al ?g = Some (Inr (g', fb))"
          by (auto simp: Let_def split: if_splits)
        show ?thesis
          using Suc.IH [OF run] Suc.prems(2) by simp
      next
        case False
        with Suc.prems(1) split notH have "g' = g"
          by (auto simp: Let_def split: if_splits)
        with Suc.prems show ?thesis by simp
      qed
    qed
  qed
qed

text \<open>
  C6, as the claim states it, fails: for a 16 by 16 image with overlap 16 and alignment
  16 the first \<open>buildModel\<close> succeeds, the loop ends without the fallback branch, and
  the tile sizes are 16, below \<open>3 * 16\<close>.
\<close>

theorem C6_counterexample:
  "subdivideLoop (Suc 0) pixelBudgetModel 300000 1 16 16 16 16 (initialTiles 16 16 16) =
     Some (Inr (tiles16, False)) \<and>
   tileH tiles16 < 3 * 16 \<and> tileW tiles16 < 3 * 16"
  by (simp add: initialTiles_def pixelBudgetModel_def tiles16_def round_up_def ceil_div_def)

text \<open>
  C6 (amended). Whenever the tile-subdivision loop of \<open>init\<close> completes (through the
  fallback branch or not), each of \<open>tileH\<close> and \<open>tileW\<close> is either still the image
  size rounded up to the alignment, as set before the loop, or at least \<open>3 * overlap\<close>.
\<close>

theorem C6_tile_minimum_or_whole_image:
  assumes "subdivideLoop fuel buildModel maxMemoryByteSize numEngines H W overlap alignment
             (initialTiles H W alignment) = Some (Inr (g, fallback))"
  shows "(tileH g = round_up H alignment \<or> 3 * overlap \<le> tileH g) \<and>
         (tileW g = round_up W alignment \<or> 3 * overlap \<le> tileW g)"
  using subdivideLoop_min [OF assms] by (simp add: initialTiles_def)

theorem C6_tile_minimum_or_whole_image_witness:
  "subdivideLoop (Suc (Suc (Suc 0))) pixelBudgetModel 300000 2 1024 1024 16 32
     (initialTiles 1024 1024 32) = Some (Inr (tiles544, False)) \<and>
   (tileH tiles544 = round_up 1024 32 \<or> 3 * 16 \<le> tileH tiles544) \<and>
   (tileW tiles544 = round_up 1024 32 \<or> 3 * 16 \<le> tileW tiles544)"
  using C6_tile_minimum_or_whole_image [OF subdivideLoop_1024] subdivideLoop_1024 by simp

lemma initTiles_1024:
  "initTiles (Suc (Suc (Suc 0))) pixelBudgetModel 300000 2 1024 1024 16 32 = Some (Inr tiles544)"
proof -
  have "finalTileCounts 1024 1024 16 tiles544 = tiles544"
    by (simp add: finalTileCounts_def tiles544_def ceil_div_def)
  then show ?thesis
    by (simp only: initTiles_def subdivideLoop_1024 option.case sum.case prod.case)
qed

theorem C5_tiles_partition_image_witness:
  "initTiles (Suc (Suc (Suc 0))) pixelBudgetModel 300000 2 1024 1024 16 32 = Some (Inr tiles544) \<and>
   tilesCover 1024 1024 16 32 tiles544 \<and> tilesDisjoint 1024 1024 16 32 tiles544"
proof -
  have "tilesCover 1024 1024 16 32 tiles544 \<and> tilesDisjoint 1024 1024 16 32 tiles544"
    by (rule C5_tiles_partition_image [OF _ _ _ _ _ _ _ _ _ _ initTiles_1024]) simp_all
  then show ?thesis
    by (intro conjI initTiles_1024) simp_all
qed


section \<open>Upsampling\<close>

lemma blockB_pos: "0 < blockB"
  by (simp add: blockB_def)

lemma split_block:
  assumes "r < n" "r' < n" "m * n + r = m' * n + (r'::nat)"
  shows "m = m'" and "r = r'"
proof -
  from assms(3) have "(m * n + r) div n = (m' * n + r') div n"
    by (rule arg_cong)
  then show "m = m'"
    using assms(1,2) by simp
  with assms(3) show "r = r'" by simp
qed

lemma concat_replicate2: "concat (replicate 2 v) = v @ v"
  by (simp add: numeral_2_eq_2)

lemma block_index: "(q + k div n) * n + k mod n = q * n + (k::nat)"
proof -
  have "(q + k div n) * n + k mod n = q * n + (k div n * n + k mod n)"
    by (simp only: add_mult_distrib add.assoc)
  then show ?thesis by simp
qed

lemma in_itemTargets:
  "a \<in> itemTargets dp W (R, x) \<longleftrightarrow>
     (\<exists>dh k. dh < 2 \<and> k < 2 * blockB \<and> a = dp + ((2 * R + dh) * (2 * W) + 2 * x) * blockB + k)"
proof
  assume "a \<in> itemTargets dp W (R, x)"
  then obtain dh dw r where d: "dh < 2" "dw < 2" "r < blockB"
    and a: "a = dp + ((2 * R + dh) * (2 * W) + 2 * x + dw) * blockB + r"
    by (auto simp: itemTargets_def)
  from d(2) have "dw = 0 \<or> dw = 1" by auto
  with d(3) have "dw * blockB + r < 2 * blockB" by auto
  moreover have "a = dp + ((2 * R + dh) * (2 * W) + 2 * x) * blockB + (dw * blockB + r)"
    unfolding a by (simp only: add_mult_distrib add.assoc)
  ultimately show "\<exists>dh k. dh < 2 \<and> k < 2 * blockB \<and>
      a = dp + ((2 * R + dh) * (2 * W) + 2 * x) * blockB + k"
    using d(1) by blast
next
  assume "\<exists>dh k. dh < 2 \<and> k < 2 * blockB \<and>
      a = dp + ((2 * R + dh) * (2 * W) + 2 * x) * blockB + k"
  then obtain dh k where dh: "dh < 2" and k: "k < 2 * blockB"
    and a: "a = dp + ((2 * R + dh) * (2 * W) + 2 * x) * blockB + k"
    by blast
  have "k div blockB < 2"
    using k blockB_pos by (simp add: less_mult_imp_div_less)
  moreover have "k mod blockB < blockB"
    using blockB_pos by simp
  moreover have "a = dp + ((2 * R + dh) * (2 * W) + 2 * x + k div blockB) * blockB + k mod blockB"
    unfolding a using block_index [of "(2 * R + dh) * (2 * W) + 2 * x" k blockB]
    by (simp only: add.assoc)
  ultimately show "a \<in> itemTargets dp W (R, x)"
    using dh unfolding itemTargets_def by (simp only: prod.case mem_Collect_eq) blast
qed

lemma kernel_cell:
  fixes mem :: "nat \<Rightarrow> 'v"
  assumes "src = accessorChw16c sp C H W" "dst = upsampleDst src dp"
  shows "SYCLUpsampleKernel src dst (R, x) mem a =
     (if a \<in> itemTargets dp W (R, x) then mem (itemSource sp dp W (R, x) a) else mem a)"
proof -
  define p0 where "p0 = dp + ((2 * R + 0) * (2 * W) + 2 * x) * blockB"
  define p2 where "p2 = dp + ((2 * R + 1) * (2 * W) + 2 * x) * blockB"
  define s0 where "s0 = sp + (R * W + x) * blockB"
  define v where "v = loadBlock mem s0 blockB"
  have K: "SYCLUpsampleKernel src dst (R, x) mem = storeBlock (storeBlock mem p0 (v @ v)) p2 (v @ v)"
    by (simp add: SYCLUpsampleKernel_def assms accessorChw16c_def upsampleDst_def Let_def
        concat_replicate2 p0_def p2_def s0_def v_def algebra_simps)
  have len: "length (v @ v) = 2 * blockB"
    by (simp add: v_def loadBlock_def)
  have v2: "(v @ v) ! k = mem (s0 + k mod blockB)" if "k < 2 * blockB" for k
  proof (cases "k < blockB")
    case True
    then show ?thesis
      by (simp add: v_def loadBlock_def nth_append)
  next
    case False
    with that have "k - blockB < blockB" "k mod blockB = k - blockB"
      by (simp_all add: mod_if)
    with False show ?thesis
      by (simp add: v_def loadBlock_def nth_append)
  qed
  have tg: "a \<in> itemTargets dp W (R, x) \<longleftrightarrow>
      (p0 \<le> a \<and> a < p0 + 2 * blockB) \<or> (p2 \<le> a \<and> a < p2 + 2 * blockB)"
  proof
    assume "a \<in> itemTargets dp W (R, x)"
    then obtain dh k where dh: "dh < (2::nat)" and k: "k < 2 * blockB"
      and a: "a = dp + ((2 * R + dh) * (2 * W) + 2 * x) * blockB + k"
      unfolding in_itemTargets by blast
    from dh have "dh = 0 \<or> dh = 1" by auto
    then have "a = p0 + k \<or> a = p2 + k"
      unfolding a p0_def p2_def by auto
    with k show "(p0 \<le> a \<and> a < p0 + 2 * blockB) \<or> (p2 \<le> a \<and> a < p2 + 2 * blockB)"
      by auto
  next
    assume h: "(p0 \<le> a \<and> a < p0 + 2 * blockB) \<or> (p2 \<le> a \<and> a < p2 + 2 * blockB)"
    then have "(a = p0 + (a - p0) \<and> a - p0 < 2 * blockB) \<or> (a = p2 + (a - p2) \<and> a - p2 < 2 * blockB)"
      by auto
    then show "a \<in> itemTargets dp W (R, x)"
      unfolding in_itemTargets p0_def p2_def
      by (metis zero_less_numeral one_less_numeral_iff semiring_norm(76))
  qed
  have modB: "(a - dp) mod blockB = (a - p) mod blockB"
    if "p = dp + q * blockB" "p \<le> a" for p q
  proof -
    have "a - dp = (a - p) + q * blockB" using that by simp
    then show ?thesis by simp
  qed
  have src: "itemSource sp dp W (R, x) a = s0 + (a - dp) mod blockB"
    by (simp add: itemSource_def s0_def)
  show ?thesis
  proof (cases "p2 \<le> a \<and> a < p2 + 2 * blockB")
    case True
    then have "SYCLUpsampleKernel src dst (R, x) mem a = (v @ v) ! (a - p2)"
      unfolding K storeBlock_def len by simp
    also have "\<dots> = mem (s0 + (a - p2) mod blockB)"
      using True by (intro v2) auto
    also have "(a - p2) mod blockB = (a - dp) mod blockB"
      using modB [OF p2_def] True by simp
    finally show ?thesis
      using True tg src by auto
  next
    case out2: False
    show ?thesis
    proof (cases "p0 \<le> a \<and> a < p0 + 2 * blockB")
      case True
      with out2 have "SYCLUpsampleKernel src dst (R, x) mem a = (v @ v) ! (a - p0)"
        unfolding K storeBlock_def len by auto
      also have "\<dots> = mem (s0 + (a - p0) mod blockB)"
        using True by (intro v2) auto
      also have "(a - p0) mod blockB = (a - dp) mod blockB"
        using modB [OF p0_def] True by simp
      finally show ?thesis
        using True tg src by auto
    next
      case False
      with out2 have "SYCLUpsampleKernel src dst (R, x) mem a = mem a"
        unfolding K storeBlock_def len by auto
      with False out2 tg show ?thesis by auto
    qed
  qed
qed

lemma itemTargets_owner:
  assumes "a \<in> itemTargets dp W (R, x)" "a \<in> itemTargets dp W (R', x')" "x < W" "x' < W"
  shows "R = R' \<and> x = x'"
proof -
  from assms(1) obtain dh dw r where d: "dh < 2" "dw < 2" "r < blockB"
    and a: "a = dp + ((2 * R + dh) * (2 * W) + 2 * x + dw) * blockB + r"
    by (auto simp: itemTargets_def)
  from assms(2) obtain dh' dw' r' where d': "dh' < 2" "dw' < 2" "r' < blockB"
    and a': "a = dp + ((2 * R' + dh') * (2 * W) + 2 * x' + dw') * blockB + r'"
    by (auto simp: itemTargets_def)
  have "((2 * R + dh) * (2 * W) + 2 * x + dw) * blockB + r =
        ((2 * R' + dh') * (2 * W) + 2 * x' + dw') * blockB + r'"
    using a a' by simp
  from split_block(1) [OF d(3) d'(3) this]
  have q: "(2 * R + dh) * (2 * W) + (2 * x + dw) = (2 * R' + dh') * (2 * W) + (2 * x' + dw')"
    by simp
  have "2 * x + dw < 2 * W" "2 * x' + dw' < 2 * W"
    using assms(3,4) d(2) d'(2) by simp_all
  from split_block [OF this q] d d' show ?thesis by auto
qed

lemma itemTargets_in_region:
  assumes "a \<in> itemTargets dp W (R, x)" "R < H * CB" "x < W"
  shows "dp \<le> a \<and> a < dp + CB * (2 * H) * (2 * W) * blockB"
proof -
  from assms(1) obtain dh dw r where d: "dh < 2" "dw < 2" "r < blockB"
    and a: "a = dp + ((2 * R + dh) * (2 * W) + 2 * x + dw) * blockB + r"
    by (auto simp: itemTargets_def)
  define q where "q = (2 * R + dh) * (2 * W) + 2 * x + dw"
  have "q + 1 \<le> (2 * R + dh) * (2 * W) + 2 * W"
    using d(2) assms(3) by (simp add: q_def)
  also have "\<dots> = (2 * R + dh + 1) * (2 * W)"
    by (simp add: algebra_simps)
  also have "\<dots> \<le> (2 * (H * CB)) * (2 * W)"
    using d(1) assms(2) by (intro mult_le_mono1) simp
  finally have A: "(q + 1) * blockB \<le> (2 * (H * CB)) * (2 * W) * blockB"
    by (rule mult_le_mono1)
  have B: "q * blockB + r < (q + 1) * blockB"
    using d(3) by simp
  have e: "(2 * (H * CB)) * (2 * W) * blockB = CB * (2 * H) * (2 * W) * blockB"
    by (simp add: algebra_simps)
  have "q * blockB + r < (2 * (H * CB)) * (2 * W) * blockB"
    by (rule less_le_trans [OF B A])
  then have "q * blockB + r < CB * (2 * H) * (2 * W) * blockB"
    by (simp only: e)
  then show ?thesis
    unfolding a q_def [symmetric] by simp
qed

lemma itemSource_in_region:
  assumes "R < H * CB" "x < W"
  shows "sp \<le> itemSource sp dp W (R, x) a \<and> itemSource sp dp W (R, x) a < sp + CB * H * W * blockB"
proof -
  define r where "r = (a - dp) mod blockB"
  have r: "r < blockB" using blockB_pos by (simp add: r_def)
  have "R * W + x + 1 \<le> (R + 1) * W"
    using assms(2) by simp
  also have "\<dots> \<le> (H * CB) * W"
    using assms(1) by (intro mult_le_mono1) simp
  finally have A: "(R * W + x + 1) * blockB \<le> (H * CB) * W * blockB"
    by (rule mult_le_mono1)
  have B: "(R * W + x) * blockB + r < (R * W + x + 1) * blockB"
    using r by simp
  have e: "(H * CB) * W * blockB = CB * H * W * blockB"
    by (simp add: algebra_simps)
  have "(R * W + x) * blockB + r < (H * CB) * W * blockB"
    by (rule less_le_trans [OF B A])
  then have "(R * W + x) * blockB + r < CB * H * W * blockB"
    by (simp only: e)
  then show ?thesis
    by (simp add: itemSource_def r_def)
qed

lemma set_workItems: "set (workItems n0 n1) = {0 ..< n0} \<times> {0 ..< n1}"
  by (auto simp: workItems_def)

text \<open>Work items that do not write a cell leave it as it is.\<close>

lemma fold_kernel_frame:
  fixes mem :: "nat \<Rightarrow> 'v"
  assumes "src = accessorChw16c sp C H W" "dst = upsampleDst src dp"
    and "\<forall>item \<in> set items. a \<notin> itemTargets dp W item"
  shows "fold (SYCLUpsampleKernel src dst) items mem a = mem a"
  using assms(3)
proof (induction items arbitrary: mem)
  case Nil
  then show ?case by simp
next
  case (Cons item items)
  obtain R x where item: "item = (R, x)" by (cases item)
  have "fold (SYCLUpsampleKernel src dst) items (SYCLUpsampleKernel src dst item mem) a =
        SYCLUpsampleKernel src dst item mem a"
    using Cons.prems by (intro Cons.IH) simp
  also have "\<dots> = mem a"
    using Cons.prems by (simp add: item kernel_cell [OF assms(1,2)])
  finally show ?case by simp
qed

text \<open>
  A cell written by one work item of the range, and by no other, ends up holding what
  that work item read, as long as no work item writes what it reads.
\<close>

lemma fold_kernel_hit:
  fixes mem mem0 :: "nat \<Rightarrow> 'v"
  assumes "src = accessorChw16c sp C H W" "dst = upsampleDst src dp"
    and "item0 \<in> set items" "a \<in> itemTargets dp W item0"
    and "\<forall>item \<in> set items. a \<in> itemTargets dp W item \<longrightarrow> item = item0"
    and "\<forall>item \<in> set items. itemSource sp dp W item0 a \<notin> itemTargets dp W item"
    and "mem (itemSource sp dp W item0 a) = mem0 (itemSource sp dp W item0 a)"
  shows "fold (SYCLUpsampleKernel src dst) items mem a = mem0 (itemSource sp dp W item0 a)"
  using assms(3,5,6,7)
proof (induction items arbitrary: mem)
  case Nil
  then show ?case by simp
next
  case (Cons item items)
  obtain R x where item: "item = (R, x)" by (cases item)
  let ?mem1 = "SYCLUpsampleKernel src dst item mem"
  have keep: "?mem1 (itemSource sp dp W item0 a) = mem0 (itemSource sp dp W item0 a)"
    using Cons.prems(3,4) by (simp add: item kernel_cell [OF assms(1,2)])
  show ?case
  proof (cases "item0 \<in> set items")
    case True
    have "fold (SYCLUpsampleKernel src dst) items ?mem1 a = mem0 (itemSource sp dp W item0 a)"
      using True Cons.prems(2,3) keep by (intro Cons.IH) simp_all
    then show ?thesis by simp
  next
    case False
    with Cons.prems(1) have eq: "item = item0" by simp
    have "\<forall>i \<in> set items. a \<notin> itemTargets dp W i"
      using False Cons.prems(2) by auto
    then have "fold (SYCLUpsampleKernel src dst) items ?mem1 a = ?mem1 a"
      by (rule fold_kernel_frame [OF assms(1,2)])
    also have "?mem1 a = mem (itemSource sp dp W item0 a)"
    proof -
      from eq item have i0: "item0 = (R, x)" by simp
      show ?thesis
        using assms(4) unfolding i0 item by (simp add: kernel_cell [OF assms(1,2)])
    qed
    finally show ?thesis
      using Cons.prems(4) by simp
  qed
qed

text \<open>
  The result does not depend on the order in which the work items run: any list that
  holds exactly the work items of the range gives the upsampled tensor.
\<close>

lemma upsample_any_order:
  fixes mem :: "nat \<Rightarrow> 'v"
  assumes "src = accessorChw16c sp C H W" and "dst = upsampleDst src dp"
    and "C mod blockB = 0"
    and "tensorRegion src \<inter> tensorRegion dst = {}"
    and "c < C" "h < H" "w < W" "dh < 2" "dw < 2"
    and "set items = {0 ..< H * (C div blockB)} \<times> {0 ..< W}"
  shows "fold (SYCLUpsampleKernel src dst) items mem (elemAddr dst c (2 * h + dh) (2 * w + dw)) =
           mem (elemAddr src c h w)"
proof -
  define CB where "CB = C div blockB"
  define R where "R = (c div blockB) * H + h"
  define a where "a = elemAddr dst c (2 * h + dh) (2 * w + dw)"
  have C: "C = CB * blockB"
    using assms(3) by (simp add: CB_def mod_eq_0_iff_dvd)
  have "c div blockB < CB"
    using assms(5) blockB_pos unfolding C by (simp add: div_less_iff_less_mult)
  then have "c div blockB + 1 \<le> CB" by simp
  then have "(c div blockB + 1) * H \<le> CB * H" by (rule mult_le_mono1)
  moreover have "R < (c div blockB + 1) * H"
    using assms(6) by (simp add: R_def)
  ultimately have R: "R < H * CB"
    by (simp add: mult.commute)
  have items: "set items = {0 ..< H * CB} \<times> {0 ..< W}"
    using assms(10) by (simp add: CB_def)
  have item0: "(R, w) \<in> set items"
    using R assms(7) by (simp add: items)
  have a_eq: "a = dp + ((2 * R + dh) * (2 * W) + 2 * w + dw) * blockB + c mod blockB"
    by (simp add: a_def elemAddr_def assms(1,2) upsampleDst_def accessorChw16c_def R_def
        algebra_simps)
  have tgt: "a \<in> itemTargets dp W (R, w)"
    unfolding itemTargets_def prod.case mem_Collect_eq
    using a_eq assms(8,9) blockB_pos by (intro exI [of _ dh] exI [of _ dw] exI [of _ "c mod blockB"]) simp
  have "(a - dp) mod blockB = c mod blockB"
    unfolding a_eq by simp
  then have source: "itemSource sp dp W (R, w) a = elemAddr src c h w"
    by (simp add: itemSource_def elemAddr_def assms(1) accessorChw16c_def R_def algebra_simps)
  have regs: "tensorRegion src = {sp ..< sp + CB * H * W * blockB}"
    "tensorRegion dst = {dp ..< dp + CB * (2 * H) * (2 * W) * blockB}"
    by (simp_all add: tensorRegion_def assms(1,2) upsampleDst_def accessorChw16c_def CB_def)
  have only: "\<forall>item \<in> set items. a \<in> itemTargets dp W item \<longrightarrow> item = (R, w)"
  proof (intro ballI impI)
    fix item assume i: "item \<in> set items" and t: "a \<in> itemTargets dp W item"
    obtain R' x' where item: "item = (R', x')" by (cases item)
    from i have "x' < W" by (simp add: item items)
    from itemTargets_owner [OF tgt t [unfolded item] assms(7) this] show "item = (R, w)"
      by (simp add: item)
  qed
  have "itemSource sp dp W (R, w) a \<in> tensorRegion src"
    using itemSource_in_region [OF R assms(7), of sp dp a] by (simp add: regs)
  with assms(4) have nd: "itemSource sp dp W (R, w) a \<notin> tensorRegion dst"
    by blast
  have untouched: "\<forall>item \<in> set items.
      itemSource sp dp W (R, w) a \<notin> itemTargets dp W item"
  proof
    fix item assume i: "item \<in> set items"
    obtain R' x' where item: "item = (R', x')" by (cases item)
    from i have r: "R' < H * CB" "x' < W" by (simp_all add: item items)
    show "itemSource sp dp W (R, w) a \<notin> itemTargets dp W item"
    proof
      assume "itemSource sp dp W (R, w) a \<in> itemTargets dp W item"
      from itemTargets_in_region [OF this [unfolded item] r] nd show False
        by (simp add: regs)
    qed
  qed
  have "fold (SYCLUpsampleKernel src dst) items mem a =
        mem (itemSource sp dp W (R, w) a)"
    by (rule fold_kernel_hit [OF assms(1,2) item0 tgt only untouched refl])
  then show ?thesis
    unfolding source unfolding a_def .
qed

text \<open>
  C10. The upsampling operation is an exact two-fold nearest-neighbour upsampling: for
  a source tensor of height \<open>H\<close> and width \<open>W\<close> (in layout \<open>Chw16c\<close>, its channel
  count a multiple of the block size, its cells apart from the destination's) the
  destination has height \<open>2H\<close> and width \<open>2W\<close>, and after \<open>run\<close> every destination
  element \<open>(c, 2h + dh, 2w + dw)\<close> with \<open>dh, dw \<in> {0, 1}\<close> holds the source element
  \<open>(c, h, w)\<close>.
\<close>

theorem C10_upsample_nearest:
  fixes mem :: "nat \<Rightarrow> 'v"
  assumes "src = accessorChw16c sp C H W" and "dst = upsampleDst src dp"
    and "C mod blockB = 0"
    and "tensorRegion src \<inter> tensorRegion dst = {}"
    and "c < C" "h < H" "w < W" "dh < 2" "dw < 2"
  shows "accH dst = 2 * H \<and> accW dst = 2 * W \<and>
         SYCLUpsample_run src dst mem (elemAddr dst c (2 * h + dh) (2 * w + dw)) =
           mem (elemAddr src c h w)"
proof -
  have "set (workItems (accH src * (accC src div blockB)) (accW src)) =
      {0 ..< H * (C div blockB)} \<times> {0 ..< W}"
    by (simp add: set_workItems assms(1) accessorChw16c_def)
  from upsample_any_order [OF assms this]
  have "SYCLUpsample_run src dst mem (elemAddr dst c (2 * h + dh) (2 * w + dw)) =
      mem (elemAddr src c h w)"
    by (simp add: SYCLUpsample_run_def runESIMDKernel_def)
  moreover have "accH dst = 2 * H" "accW dst = 2 * W"
    by (simp_all add: assms(1,2) upsampleDst_def accessorChw16c_def)
  ultimately show ?thesis by simp
qed

theorem C10_upsample_nearest_witness:
  "16 mod blockB = 0 \<and>
   tensorRegion (accessorChw16c 0 16 1 1) \<inter>
     tensorRegion (upsampleDst (accessorChw16c 0 16 1 1) 16) = {} \<and>
   accH (upsampleDst (accessorChw16c 0 16 1 1) 16) = 2 \<and>
   accW (upsampleDst (accessorChw16c 0 16 1 1) 16) = 2 \<and>
   SYCLUpsample_run (accessorChw16c 0 16 1 1) (upsampleDst (accessorChw16c 0 16 1 1) 16)
     (\<lambda>a. a) (elemAddr (upsampleDst (accessorChw16c 0 16 1 1) 16) 3 1 1) = (3::nat)"
proof -
  have m: "16 mod blockB = 0"
    by (simp add: blockB_def)
  have d: "tensorRegion (accessorChw16c 0 16 1 1) \<inter>
     tensorRegion (upsampleDst (accessorChw16c 0 16 1 1) 16) = {}"
    by (simp add: tensorRegion_def upsampleDst_def accessorChw16c_def blockB_def)
  have s: "elemAddr (accessorChw16c 0 16 1 1) 3 0 0 = 3"
    by (simp add: elemAddr_def accessorChw16c_def blockB_def)
  from C10_upsample_nearest [OF refl refl m d, of 3 0 0 1 1 "\<lambda>a. a"] m d s
  show ?thesis by simp
qed


section \<open>Repacking\<close>

lemma fold_product:
  "fold (\<lambda>x. fold (F x) ys) xs = fold (\<lambda>(x, y). F x y) (List.product xs ys)"
proof (induction xs)
  case Nil
  then show ?case by simp
next
  case (Cons x xs)
  have "fold (\<lambda>(a, y). F a y) (map (Pair x) ys) = fold (F x) ys"
    by (simp add: fold_map comp_def)
  with Cons show ?case
    by (simp add: fun_eq_iff)
qed

lemma fold_product4:
  "fold (\<lambda>a. fold (\<lambda>b. fold (\<lambda>c. fold (\<lambda>d. F a b c d) ds) cs) bs) as =
   fold (\<lambda>(a, b, c, d). F a b c d)
     (List.product as (List.product bs (List.product cs ds)))"
proof -
  have 1: "fold (\<lambda>c. fold (\<lambda>d. F a b c d) ds) cs =
      fold (\<lambda>(c, d). F a b c d) (List.product cs ds)" for a b
    by (rule fold_product)
  have 2: "fold (\<lambda>b. fold (\<lambda>(c, d). F a b c d) cd) bs =
      fold (\<lambda>(b, c, d). F a b c d) (List.product bs cd)" for a cd
    by (rule fold_product)
  have 3: "fold (\<lambda>a. fold (\<lambda>(b, c, d). F a b c d) bcd) as =
      fold (\<lambda>(a, b, c, d). F a b c d) (List.product as bcd)" for bcd
    by (rule fold_product)
  show ?thesis
    by (simp only: 1 2 3)
qed

lemma fold_update_miss:
  "a \<notin> f ` set xs \<Longrightarrow> fold (\<lambda>x m. m(f x := g x)) xs m a = m a"
  by (induction xs arbitrary: m) auto

lemma fold_update_hit:
  "inj_on f (set xs) \<Longrightarrow> x \<in> set xs \<Longrightarrow> fold (\<lambda>x m. m(f x := g x)) xs m (f x) = g x"
proof (induction xs arbitrary: m)
  case Nil
  then show ?case by simp
next
  case (Cons y ys)
  show ?case
  proof (cases "x \<in> set ys")
    case True
    with Cons show ?thesis by (simp add: inj_on_def)
  next
    case False
    with Cons.prems have xy: "x = y" by simp
    have "f x \<notin> f ` set ys"
      using Cons.prems(1) False xy by (auto simp: inj_on_def)
    then have "fold (\<lambda>x m. m(f x := g x)) ys (m(f y := g y)) (f x) = (m(f y := g y)) (f x)"
      by (rule fold_update_miss)
    also have "\<dots> = g x"
      by (simp add: xy)
    finally show ?thesis by (simp only: fold_simps comp_apply)
  qed
qed

lemma tryReorderWeight_cells:
  fixes src dst :: "('v::zero) Tensor"
  assumes "srcBeginI + srcI \<le> getPaddedI src" "dstBeginI + dstI \<le> getPaddedI dst"
    and "inj_on (at4 dst) (writtenIndices dst dstBeginI dstI)"
  shows "\<exists>dst1. tryReorderWeight convert (getDataType src) (getDataType dst)
                  (getLayout src) (getLayout dst) src srcBeginI srcI dst dstBeginI dstI =
                Inr (True, dst1) \<and>
               at4 dst1 = at4 dst \<and>
               (\<forall>oc < accessorO dst. \<forall>i < dstI. \<forall>h < accessorH dst. \<forall>w < accessorW dst.
                  cells dst1 (at4 dst (oc, dstBeginI + i, h, w)) =
                    convert (getDataType src) (getDataType dst)
                      (if oc < accessorO src \<and> i < srcI
                       then cells src (at4 src (oc, srcBeginI + i, h, w)) else 0))"
proof -
  define f where "f = (\<lambda>(oc, i, h, w). at4 dst (oc, dstBeginI + i, h, w))"
  define g where "g = (\<lambda>(oc, i, h, w).
      convert (getDataType src) (getDataType dst)
        (if oc < accessorO src \<and> i < srcI
         then cells src (at4 src (oc, srcBeginI + i, h, w)) else 0))"
  define idx where "idx = List.product [0 ..< accessorO dst] (List.product [0 ..< dstI]
      (List.product [0 ..< accessorH dst] [0 ..< accessorW dst]))"
  define mem1 where "mem1 = fold (\<lambda>x m. m(f x := g x)) idx (cells dst)"
  have step: "(\<lambda>(oc, i, h, w) mem.
        mem(at4 dst (oc, dstBeginI + i, h, w) :=
          convert (getDataType src) (getDataType dst)
            (if oc < accessorO src \<and> i < srcI
             then cells src (at4 src (oc, srcBeginI + i, h, w)) else 0))) =
      (\<lambda>x m. m(f x := g x))"
    by (auto simp: fun_eq_iff f_def g_def)
  have run: "tryReorderWeight convert (getDataType src) (getDataType dst)
      (getLayout src) (getLayout dst) src srcBeginI srcI dst dstBeginI dstI =
      Inr (True, dst\<lparr>cells := mem1\<rparr>)"
    using assms(1,2)
    unfolding tryReorderWeight_def Let_def fold_product4 step mem1_def idx_def
    by simp
  have inj: "inj_on f (set idx)"
    unfolding inj_on_def
  proof (intro ballI impI)
    fix a b assume a: "a \<in> set idx" and b: "b \<in> set idx" and e: "f a = f b"
    obtain oc i h w where pa: "a = (oc, i, h, w)" by (cases a) auto
    obtain oc' i' h' w' where pb: "b = (oc', i', h', w')" by (cases b) auto
    have ia: "(oc, dstBeginI + i, h, w) \<in> writtenIndices dst dstBeginI dstI"
      using a by (simp add: pa idx_def writtenIndices_def)
    have ib: "(oc', dstBeginI + i', h', w') \<in> writtenIndices dst dstBeginI dstI"
      using b by (simp add: pb idx_def writtenIndices_def)
    have eq: "at4 dst (oc, dstBeginI + i, h, w) = at4 dst (oc', dstBeginI + i', h', w')"
      using e by (simp add: pa pb f_def)
    have "(oc, dstBeginI + i, h, w) = (oc', dstBeginI + i', h', w')"
      by (rule inj_onD [OF assms(3) eq ia ib])
    then show "a = b" by (simp add: pa pb)
  qed
  have "\<forall>oc < accessorO dst. \<forall>i < dstI. \<forall>h < accessorH dst. \<forall>w < accessorW dst.
      mem1 (at4 dst (oc, dstBeginI + i, h, w)) =
        convert (getDataType src) (getDataType dst)
          (if oc < accessorO src \<and> i < srcI
           then cells src (at4 src (oc, srcBeginI + i, h, w)) else 0)"
  proof (intro allI impI)
    fix oc i h w
    assume r: "oc < accessorO dst" "i < dstI" "h < accessorH dst" "w < accessorW dst"
    then have "(oc, i, h, w) \<in> set idx" by (simp add: idx_def)
    from fold_update_hit [OF inj this, of g "cells dst"]
    show "mem1 (at4 dst (oc, dstBeginI + i, h, w)) =
        convert (getDataType src) (getDataType dst)
          (if oc < accessorO src \<and> i < srcI
           then cells src (at4 src (oc, srcBeginI + i, h, w)) else 0)"
      by (simp add: mem1_def f_def g_def)
  qed
  with run show ?thesis by simp
qed

lemma tryReorderWeight_other:
  assumes "srcBeginI + srcI \<le> getPaddedI src" "dstBeginI + dstI \<le> getPaddedI dst"
    and "(SrcT, DstT, srcLayout, dstLayout) \<noteq>
         (getDataType src, getDataType dst, getLayout src, getLayout dst)"
  shows "tryReorderWeight convert SrcT DstT srcLayout dstLayout
           src srcBeginI srcI dst dstBeginI dstI = Inr (False, dst)"
  using assms by (auto simp: tryReorderWeight_def)

lemma tryWeightInstances_supported:
  assumes "srcBeginI + srcI \<le> getPaddedI src" "dstBeginI + dstI \<le> getPaddedI dst"
    and "(getDataType src, getDataType dst, getLayout src, getLayout dst) \<in> set insts"
    and "tryReorderWeight convert (getDataType src) (getDataType dst)
           (getLayout src) (getLayout dst) src srcBeginI srcI dst dstBeginI dstI = Inr (True, dst1)"
  shows "tryWeightInstances convert insts src srcBeginI srcI dst dstBeginI dstI = Inr (True, dst1)"
  using assms(3)
proof (induction insts)
  case Nil
  then show ?case by simp
next
  case (Cons inst insts)
  obtain SrcT DstT srcLayout dstLayout where inst: "inst = (SrcT, DstT, srcLayout, dstLayout)"
    by (cases inst) auto
  show ?case
  proof (cases "inst = (getDataType src, getDataType dst, getLayout src, getLayout dst)")
    case True
    then show ?thesis
      using assms(4) by simp
  next
    case False
    with Cons.prems have "(getDataType src, getDataType dst, getLayout src, getLayout dst) \<in> set insts"
      by simp
    from Cons.IH [OF this] tryReorderWeight_other [OF assms(1,2), of SrcT DstT srcLayout dstLayout convert]
      False
    show ?thesis by (simp add: inst)
  qed
qed

lemma reorderWeight_repacks:
  fixes src dst :: "('v::zero) Tensor"
  assumes "(getDataType src, getDataType dst, getLayout src, getLayout dst) \<in> set weightInstances"
    and "srcBeginI + srcI \<le> getPaddedI src" "dstBeginI + dstI \<le> getPaddedI dst"
    and "inj_on (at4 dst) (writtenIndices dst dstBeginI dstI)"
    and "\<forall>v. convert (getDataType src) (getDataType dst) v = v"
  shows "\<exists>dst1. reorderWeight convert src srcBeginI srcI dst dstBeginI dstI = Inr dst1 \<and>
               weightRepacked src srcBeginI srcI dst dstBeginI dstI dst1"
proof -
  from tryReorderWeight_cells [OF assms(2,3,4), of convert] obtain dst1
    where run: "tryReorderWeight convert (getDataType src) (getDataType dst)
                  (getLayout src) (getLayout dst) src srcBeginI srcI dst dstBeginI dstI =
                Inr (True, dst1)"
      and at: "at4 dst1 = at4 dst"
      and c: "\<forall>oc < accessorO dst. \<forall>i < dstI. \<forall>h < accessorH dst. \<forall>w < accessorW dst.
                  cells dst1 (at4 dst (oc, dstBeginI + i, h, w)) =
                    convert (getDataType src) (getDataType dst)
                      (if oc < accessorO src \<and> i < srcI
                       then cells src (at4 src (oc, srcBeginI + i, h, w)) else 0)"
    by blast
  have "reorderWeight convert src srcBeginI srcI dst dstBeginI dstI = Inr dst1"
    using tryWeightInstances_supported [OF assms(2,3,1) run]
    by (simp add: reorderWeight_def)
  moreover have "weightRepacked src srcBeginI srcI dst dstBeginI dstI dst1"
    unfolding weightRepacked_def at using c assms(5) by simp
  ultimately show ?thesis by blast
qed

lemma reorderBias_repacks:
  fixes src dst :: "('v::zero) Tensor"
  assumes "getLayout src = L_x" "getLayout dst = L_x" "getDataType src = Float16"
    and "inj_on (at1 dst) {..< max (getX src) (accessorX dst)}"
    and "\<forall>v. convert (getDataType src) (getDataType dst) v = v"
  shows "\<exists>dst1. reorderBias convert src dst = Inr dst1 \<and> biasRepacked src dst dst1"
proof -
  define D where "D = getDataType dst"
  define mem1 where
    "mem1 = fold (\<lambda>x mem. mem(at1 dst x := convert Float16 D (cells src (at1 src x))))
              [0 ..< getX src] (cells dst)"
  define mem2 where
    "mem2 = fold (\<lambda>x mem. mem(at1 dst x := convert Float16 D 0)) [getX src ..< accessorX dst] mem1"
  have conv: "convert Float16 D v = v" for v
    using assms(3,5) by (simp add: D_def)
  have tr: "tryReorderBias convert Float16 D src dst = (True, dst\<lparr>cells := mem2\<rparr>)"
    using assms(3) by (simp add: tryReorderBias_def D_def mem1_def mem2_def Let_def)
  have "D = Float16 \<or> D = Float32" by (cases D) simp_all
  then have run: "reorderBias convert src dst = Inr (dst\<lparr>cells := mem2\<rparr>)"
  proof
    assume "D = Float16"
    with tr show ?thesis by (simp add: reorderBias_def assms(1,2))
  next
    assume d: "D = Float32"
    then have "tryReorderBias convert Float16 Float16 src dst = (False, dst)"
      by (simp add: tryReorderBias_def D_def)
    with tr d show ?thesis by (simp add: reorderBias_def assms(1,2))
  qed
  have inj1: "inj_on (at1 dst) (set [0 ..< getX src])"
    by (rule inj_on_subset [OF assms(4)]) auto
  have inj2: "inj_on (at1 dst) (set [getX src ..< accessorX dst])"
    by (rule inj_on_subset [OF assms(4)]) auto
  have low: "mem2 (at1 dst x) = cells src (at1 src x)" if "x < getX src" for x
  proof -
    have "at1 dst x \<notin> at1 dst ` set [getX src ..< accessorX dst]"
    proof
      assume "at1 dst x \<in> at1 dst ` set [getX src ..< accessorX dst]"
      then obtain y where y: "getX src \<le> y" "y < accessorX dst" "at1 dst x = at1 dst y"
        by auto
      have xy: "x \<in> {..< max (getX src) (accessorX dst)}" "y \<in> {..< max (getX src) (accessorX dst)}"
        using that y by auto
      have "x = y" by (rule inj_onD [OF assms(4) y(3) xy])
      with that y(1) show False by simp
    qed
    then have "mem2 (at1 dst x) = mem1 (at1 dst x)"
      unfolding mem2_def by (rule fold_update_miss)
    moreover have "x \<in> set [0 ..< getX src]" using that by simp
    from fold_update_hit [OF inj1 this, of "\<lambda>x. convert Float16 D (cells src (at1 src x))" "cells dst"]
    have "mem1 (at1 dst x) = cells src (at1 src x)"
      by (simp add: mem1_def conv)
    ultimately show ?thesis by simp
  qed
  have high: "mem2 (at1 dst x) = 0" if "getX src \<le> x" "x < accessorX dst" for x
  proof -
    have "x \<in> set [getX src ..< accessorX dst]" using that by simp
    from fold_update_hit [OF inj2 this, of "\<lambda>x. convert Float16 D 0" mem1]
    show ?thesis by (simp add: mem2_def conv)
  qed
  have "biasRepacked src dst (dst\<lparr>cells := mem2\<rparr>)"
    using low high by (simp add: biasRepacked_def)
  with run show ?thesis by blast
qed

text \<open>
  C4. For every combination of data types and layouts that the weight repacker
  supports, and every call whose input-channel ranges lie within the padded input
  channels of source and destination, the call succeeds and the destination, read back
  through its accessor at a written index \<open>(o, dstBeginI + i, h, w)\<close>, holds the
  source's element \<open>(o, srcBeginI + i, h, w)\<close> where \<open>o\<close> is inside the source's output
  channels and \<open>i < srcI\<close>, and zero at every other written index. For a bias in
  layout \<open>x\<close> the elements below the source's length are copied and the rest up to the
  destination's padded length is zero. The two conversions the repacker instantiates
  (half to half, half to float) keep the value, and an accessor sends different
  indices to different cells: these are the hypotheses on \<open>convert\<close>, \<open>at4\<close> and \<open>at1\<close>.
\<close>

theorem C4_repack_copies_and_pads:
  fixes src dst bsrc bdst :: "('v::zero) Tensor"
  assumes "(getDataType src, getDataType dst, getLayout src, getLayout dst) \<in> set weightInstances"
    and "srcBeginI + srcI \<le> getPaddedI src" "dstBeginI + dstI \<le> getPaddedI dst"
    and "inj_on (at4 dst) (writtenIndices dst dstBeginI dstI)"
    and "\<forall>v. convert (getDataType src) (getDataType dst) v = v"
    and "getLayout bsrc = L_x" "getLayout bdst = L_x" "getDataType bsrc = Float16"
    and "inj_on (at1 bdst) {..< max (getX bsrc) (accessorX bdst)}"
    and "\<forall>v. convert (getDataType bsrc) (getDataType bdst) v = v"
  shows "(\<exists>dst1. reorderWeight convert src srcBeginI srcI dst dstBeginI dstI = Inr dst1 \<and>
                weightRepacked src srcBeginI srcI dst dstBeginI dstI dst1) \<and>
         (\<exists>bdst1. reorderBias convert bsrc bdst = Inr bdst1 \<and> biasRepacked bsrc bdst bdst1)"
  using reorderWeight_repacks [where convert = convert and src = src and dst = dst, OF assms(1-5)]
    reorderBias_repacks [where convert = convert and src = bsrc and dst = bdst, OF assms(6-10)]
  by (rule conjI)

theorem C4_repack_copies_and_pads_witness:
  "(getDataType (exampleTensor Float16 L_oihw 1 2 1), getDataType (exampleTensor Float32 L_oihw 2 4 100),
    getLayout (exampleTensor Float16 L_oihw 1 2 1), getLayout (exampleTensor Float32 L_oihw 2 4 100))
     \<in> set weightInstances \<and>
   0 + 2 \<le> getPaddedI (exampleTensor Float16 L_oihw 1 2 1) \<and>
   0 + 4 \<le> getPaddedI (exampleTensor Float32 L_oihw 2 4 100) \<and>
   inj_on (at4 (exampleTensor Float32 L_oihw 2 4 100))
     (writtenIndices (exampleTensor Float32 L_oihw 2 4 100) 0 4) \<and>
   getLayout (exampleTensor Float16 L_x 1 2 1) = L_x \<and>
   getLayout (exampleTensor Float32 L_x 1 4 100) = L_x \<and>
   getDataType (exampleTensor Float16 L_x 1 2 1) = Float16 \<and>
   inj_on (at1 (exampleTensor Float32 L_x 1 4 100))
     {..< max (getX (exampleTensor Float16 L_x 1 2 1)) (accessorX (exampleTensor Float32 L_x 1 4 100))} \<and>
   (\<exists>dst1. reorderWeight exactConvert (exampleTensor Float16 L_oihw 1 2 1) 0 2
              (exampleTensor Float32 L_oihw 2 4 100) 0 4 = Inr dst1 \<and>
      weightRepacked (exampleTensor Float16 L_oihw 1 2 1) 0 2
        (exampleTensor Float32 L_oihw 2 4 100) 0 4 dst1) \<and>
   (\<exists>bdst1. reorderBias exactConvert (exampleTensor Float16 L_x 1 2 1)
              (exampleTensor Float32 L_x 1 4 100) = Inr bdst1 \<and>
      biasRepacked (exampleTensor Float16 L_x 1 2 1) (exampleTensor Float32 L_x 1 4 100) bdst1)"
proof -
  let ?src = "exampleTensor Float16 L_oihw 1 2 1"
  let ?dst = "exampleTensor Float32 L_oihw 2 4 100"
  let ?bsrc = "exampleTensor Float16 L_x 1 2 1"
  let ?bdst = "exampleTensor Float32 L_x 1 4 100"
  have 1: "(getDataType ?src, getDataType ?dst, getLayout ?src, getLayout ?dst) \<in> set weightInstances"
    by (simp add: exampleTensor_def weightInstances_def)
  have 2: "0 + 2 \<le> getPaddedI ?src" and 3: "0 + 4 \<le> getPaddedI ?dst"
    by (simp_all add: exampleTensor_def)
  have 4: "inj_on (at4 ?dst) (writtenIndices ?dst 0 4)"
    by (auto simp: inj_on_def writtenIndices_def exampleTensor_def) presburger+
  have 5: "\<forall>v. exactConvert (getDataType ?src) (getDataType ?dst) v = v"
    and 10: "\<forall>v. exactConvert (getDataType ?bsrc) (getDataType ?bdst) v = v"
    by (simp_all add: exactConvert_def)
  have 6: "getLayout ?bsrc = L_x" and 7: "getLayout ?bdst = L_x"
    and 8: "getDataType ?bsrc = Float16"
    by (simp_all add: exampleTensor_def)
  have 9: "inj_on (at1 ?bdst) {..< max (getX ?bsrc) (accessorX ?bdst)}"
    by (simp add: exampleTensor_def inj_on_def)
  from C4_repack_copies_and_pads [where convert = exactConvert, OF 1 2 3 4 5 6 7 8 9 10]
    1 2 3 4 6 7 8 9
  show ?thesis by blast
qed

section \<open>The memory planner\<close>

lemma shape_length: "shape A = shape B \<Longrightarrow> length A = length B"
  by (metis length_map shape_def)

lemma shape_nth:
  assumes "shape A = shape B" "i < length A"
  shows "next (A ! i) = next (B ! i)" "prev (A ! i) = prev (B ! i)"
    "byteSize (A ! i) = byteSize (B ! i)" "firstOpID (A ! i) = firstOpID (B ! i)"
    "lastOpID (A ! i) = lastOpID (B ! i)"
proof -
  have l: "i < length B" using assms shape_length by metis
  have "shape A ! i = shape B ! i" using assms by simp
  then have e: "(A ! i)\<lparr>byteOffset := 0\<rparr> = (B ! i)\<lparr>byteOffset := 0\<rparr>"
    using assms(2) l by (simp add: shape_def)
  have "next ((A ! i)\<lparr>byteOffset := 0\<rparr>) = next ((B ! i)\<lparr>byteOffset := 0\<rparr>)"
    "prev ((A ! i)\<lparr>byteOffset := 0\<rparr>) = prev ((B ! i)\<lparr>byteOffset := 0\<rparr>)"
    "byteSize ((A ! i)\<lparr>byteOffset := 0\<rparr>) = byteSize ((B ! i)\<lparr>byteOffset := 0\<rparr>)"
    "firstOpID ((A ! i)\<lparr>byteOffset := 0\<rparr>) = firstOpID ((B ! i)\<lparr>byteOffset := 0\<rparr>)"
    "lastOpID ((A ! i)\<lparr>byteOffset := 0\<rparr>) = lastOpID ((B ! i)\<lparr>byteOffset := 0\<rparr>)"
    by (simp_all only: e)
  then show "next (A ! i) = next (B ! i)" "prev (A ! i) = prev (B ! i)"
    "byteSize (A ! i) = byteSize (B ! i)" "firstOpID (A ! i) = firstOpID (B ! i)"
    "lastOpID (A ! i) = lastOpID (B ! i)"
    by simp_all
qed

lemma shape_set_offset: "shape (A[i := (A ! i)\<lparr>byteOffset := v\<rparr>]) = shape A"
proof (cases "i < length A")
  case True
  have "shape (A[i := (A ! i)\<lparr>byteOffset := v\<rparr>]) = (shape A)[i := (shape A) ! i]"
    using True by (simp add: shape_def map_update)
  then show ?thesis by simp
next
  case False
  then show ?thesis by (simp add: list_update_beyond)
qed

lemma chainFrom_shape:
  "shape A = shape B \<Longrightarrow> chainFrom A f i = chainFrom B f i"
proof (induction f arbitrary: i)
  case 0
  then show ?case by simp
next
  case (Suc f)
  have l: "length A = length B" using Suc.prems by (rule shape_length)
  show ?case
  proof (cases "i < length A")
    case True
    with shape_nth(1) [OF Suc.prems True] Suc.IH [OF Suc.prems] l show ?thesis
      by (simp split: option.splits)
  next
    case False
    with l show ?thesis by simp
  qed
qed

lemma chainFrom_mono:
  "chainFrom A f i = Some ms \<Longrightarrow> f \<le> f' \<Longrightarrow> chainFrom A f' i = Some ms"
proof (induction f arbitrary: i ms f')
  case 0
  then show ?case by simp
next
  case (Suc f)
  then obtain g where f': "f' = Suc g" and fg: "f \<le> g"
    by (cases f') auto
  from Suc.prems(1) have i: "i < length A" by (simp split: if_splits)
  show ?case
  proof (cases "next (A ! i)")
    case None
    with Suc.prems(1) i show ?thesis by (simp add: f')
  next
    case (Some j)
    with Suc.prems(1) i obtain ms' where ms': "chainFrom A f j = Some ms'" "ms = i # ms'"
      by auto
    from Suc.IH [OF ms'(1) fg] Some i ms'(2) show ?thesis by (simp add: f')
  qed
qed

lemma chainFrom_basic:
  "chainFrom A f i = Some ms \<Longrightarrow>
     ms \<noteq> [] \<and> hd ms = i \<and> length ms \<le> f \<and> (\<forall>m \<in> set ms. m < length A)"
proof (induction f arbitrary: i ms)
  case 0
  then show ?case by simp
next
  case (Suc f)
  from Suc.prems have i: "i < length A" by (simp split: if_splits)
  show ?case
  proof (cases "next (A ! i)")
    case None
    with Suc.prems i show ?thesis by auto
  next
    case (Some j)
    with Suc.prems i obtain ms' where ms': "chainFrom A f j = Some ms'" "ms = i # ms'"
      by auto
    from Suc.IH [OF ms'(1)] i ms'(2) show ?thesis by simp
  qed
qed

lemma chainFrom_drop:
  "chainFrom A f i = Some ms \<Longrightarrow> k < length ms \<Longrightarrow>
     chainFrom A (f - k) (ms ! k) = Some (drop k ms)"
proof (induction f arbitrary: i ms k)
  case 0
  then show ?case by simp
next
  case (Suc f)
  from Suc.prems have i: "i < length A" by (simp split: if_splits)
  show ?case
  proof (cases k)
    case 0
    from chainFrom_basic [OF Suc.prems(1)] have "ms ! 0 = i"
      by (metis hd_conv_nth)
    with Suc.prems(1) 0 show ?thesis
      by (simp only: diff_zero drop_0)
  next
    case (Suc k')
    show ?thesis
    proof (cases "next (A ! i)")
      case None
      with Suc.prems i Suc show ?thesis by auto
    next
      case (Some j)
      with Suc.prems(1) i obtain ms' where ms': "chainFrom A f j = Some ms'" "ms = i # ms'"
        by auto
      from Suc.prems(2) Suc ms'(2) have "k' < length ms'" by simp
      from Suc.IH [OF ms'(1) this] Suc ms'(2) show ?thesis by simp
    qed
  qed
qed

lemma chainFrom_distinct:
  "chainFrom A f i = Some ms \<Longrightarrow> distinct ms"
proof (induction f arbitrary: i ms)
  case 0
  then show ?case by simp
next
  case (Suc f)
  from Suc.prems have i: "i < length A" by (simp split: if_splits)
  show ?case
  proof (cases "next (A ! i)")
    case None
    with Suc.prems i show ?thesis by auto
  next
    case (Some j)
    with Suc.prems i obtain ms' where ms': "chainFrom A f j = Some ms'" "ms = i # ms'"
      by auto
    have "i \<notin> set ms'"
    proof
      assume "i \<in> set ms'"
      then obtain k where k: "k < length ms'" "ms' ! k = i"
        by (auto simp: in_set_conv_nth)
      from chainFrom_drop [OF ms'(1) k(1)] k(2)
      have "chainFrom A (f - k) i = Some (drop k ms')" by simp
      then have "chainFrom A (Suc f) i = Some (drop k ms')"
        by (rule chainFrom_mono) simp
      with Suc.prems ms'(2) have "drop k ms' = i # ms'" by simp
      then have "length (drop k ms') = length (i # ms')" by simp
      then show False by simp
    qed
    with Suc.IH [OF ms'(1)] ms'(2) show ?thesis by simp
  qed
qed

lemma chainFrom_next:
  "chainFrom A f i = Some ms \<Longrightarrow>
     (\<forall>k. Suc k < length ms \<longrightarrow> next (A ! (ms ! k)) = Some (ms ! Suc k)) \<and>
     next (A ! last ms) = None"
proof (induction f arbitrary: i ms)
  case 0
  then show ?case by simp
next
  case (Suc f)
  from Suc.prems have i: "i < length A" by (simp split: if_splits)
  show ?case
  proof (cases "next (A ! i)")
    case None
    with Suc.prems i show ?thesis by auto
  next
    case (Some j)
    with Suc.prems i obtain ms' where ms': "chainFrom A f j = Some ms'" "ms = i # ms'"
      by auto
    note b = chainFrom_basic [OF ms'(1)]
    from b have hd: "ms' ! 0 = j" by (metis hd_conv_nth)
    have "next (A ! (ms ! k)) = Some (ms ! Suc k)" if "Suc k < length ms" for k
    proof (cases k)
      case 0
      with Some hd ms'(2) show ?thesis by simp
    next
      case (Suc k')
      with that ms'(2) Suc.IH [OF ms'(1)] show ?thesis by simp
    qed
    moreover have "next (A ! last ms) = None"
      using Suc.IH [OF ms'(1)] b ms'(2) by simp
    ultimately show ?thesis by blast
  qed
qed

lemma linksOk_at:
  assumes "linksOk A" "i < length A"
  shows "case next (A ! i) of None \<Rightarrow> True
         | Some j \<Rightarrow> j < length A \<and> prev (A ! j) = Some i"
    and "case prev (A ! i) of None \<Rightarrow> True
         | Some j \<Rightarrow> j < length A \<and> next (A ! j) = Some i"
proof -
  from assms(2) have "i \<in> set [0 ..< length A]" by simp
  with assms(1) have
    "(case next (A ! i) of None \<Rightarrow> True
      | Some j \<Rightarrow> j < length A \<and> prev (A ! j) = Some i) \<and>
     (case prev (A ! i) of None \<Rightarrow> True
      | Some j \<Rightarrow> j < length A \<and> next (A ! j) = Some i)"
    unfolding linksOk_def list_all_iff by (rule bspec)
  then show "case next (A ! i) of None \<Rightarrow> True
         | Some j \<Rightarrow> j < length A \<and> prev (A ! j) = Some i"
    and "case prev (A ! i) of None \<Rightarrow> True
         | Some j \<Rightarrow> j < length A \<and> next (A ! j) = Some i"
    by blast+
qed

lemma linksOk_next:
  assumes "linksOk A" "i < length A" "next (A ! i) = Some j"
  shows "j < length A" "prev (A ! j) = Some i"
  using linksOk_at(1) [OF assms(1,2)] assms(3) by simp_all

lemma linksOk_prev:
  assumes "linksOk A" "i < length A" "prev (A ! i) = Some j"
  shows "j < length A" "next (A ! j) = Some i"
  using linksOk_at(2) [OF assms(1,2)] assms(3) by simp_all

lemma chainsAcyclic_chain:
  assumes "chainsAcyclic A" "i < length A"
  shows "\<exists>ms. chainFrom A (length A) i = Some ms"
proof -
  from assms(2) have "i \<in> set [0 ..< length A]" by simp
  with assms(1) have "chainFrom A (length A) i \<noteq> None"
    unfolding chainsAcyclic_def list_all_iff by (rule bspec)
  then show ?thesis by blast
qed

text \<open>In a chain that starts at a record without \<open>prev\<close>, every later record's \<open>prev\<close> is the record before it.\<close>

lemma chain_prev:
  assumes "linksOk A" "chainFrom A f h = Some ms" "Suc k < length ms"
  shows "prev (A ! (ms ! Suc k)) = Some (ms ! k)"
proof -
  from chainFrom_next [OF assms(2)] assms(3)
  have n: "next (A ! (ms ! k)) = Some (ms ! Suc k)" by blast
  from chainFrom_basic [OF assms(2)] assms(3) have "ms ! k < length A" by simp
  from linksOk_next(2) [OF assms(1) this n] show ?thesis .
qed

lemma chains_meet_at_heads:
  assumes "linksOk A"
    and "chainFrom A f1 h1 = Some ms1" "prev (A ! h1) = None"
    and "chainFrom A f2 h2 = Some ms2" "prev (A ! h2) = None"
    and "k1 < length ms1" "k2 < length ms2" "ms1 ! k1 = ms2 ! k2"
  shows "h1 = h2"
  using assms(6,7,8)
proof (induction k1 arbitrary: k2)
  case 0
  from chainFrom_basic [OF assms(2)] have h1: "ms1 ! 0 = h1" by (metis hd_conv_nth)
  from chainFrom_basic [OF assms(4)] have h2: "ms2 ! 0 = h2" by (metis hd_conv_nth)
  show ?case
  proof (cases k2)
    case 0
    with "0.prems" h1 h2 show ?thesis by simp
  next
    case (Suc k)
    with "0.prems" chain_prev [OF assms(1,4), of k] have "prev (A ! (ms1 ! 0)) = Some (ms2 ! k)"
      by simp
    with h1 assms(3) show ?thesis by simp
  qed
next
  case (Suc k1)
  from chainFrom_basic [OF assms(4)] have h2: "ms2 ! 0 = h2" by (metis hd_conv_nth)
  from chain_prev [OF assms(1,2) Suc.prems(1)]
  have p1: "prev (A ! (ms1 ! Suc k1)) = Some (ms1 ! k1)" .
  show ?case
  proof (cases k2)
    case 0
    with Suc.prems(3) p1 h2 assms(5) show ?thesis by simp
  next
    case (Suc k)
    with Suc.prems chain_prev [OF assms(1,4), of k]
    have "prev (A ! (ms1 ! Suc k1)) = Some (ms2 ! k)" by simp
    with p1 have "ms1 ! k1 = ms2 ! k" by simp
    moreover have "k1 < length ms1" "k < length ms2"
      using Suc.prems Suc by simp_all
    ultimately show ?thesis by (intro Suc.IH)
  qed
qed

lemma chains_disjoint:
  assumes "linksOk A"
    and "chainFrom A f1 h1 = Some ms1" "prev (A ! h1) = None"
    and "chainFrom A f2 h2 = Some ms2" "prev (A ! h2) = None"
    and "h1 \<noteq> h2"
  shows "set ms1 \<inter> set ms2 = {}"
proof (rule ccontr)
  assume "set ms1 \<inter> set ms2 \<noteq> {}"
  then obtain m where "m \<in> set ms1" "m \<in> set ms2" by blast
  then obtain k1 k2 where "k1 < length ms1" "ms1 ! k1 = m" "k2 < length ms2" "ms2 ! k2 = m"
    by (auto simp: in_set_conv_nth)
  with chains_meet_at_heads [OF assms(1-5), of k1 k2] assms(6) show False by simp
qed


text \<open>Every record lies in the chain of a record without \<open>prev\<close>.\<close>

lemma chain_covers:
  assumes "linksOk A" "chainsAcyclic A" "i < length A"
  shows "\<exists>h ms. h < length A \<and> prev (A ! h) = None \<and>
           chainFrom A (length A) h = Some ms \<and> i \<in> set ms"
  using assms(3)
proof (induction "length A - length (the (chainFrom A (length A) i))" arbitrary: i
    rule: less_induct)
  case less
  from chainsAcyclic_chain [OF assms(2) less.prems] obtain ms
    where ms: "chainFrom A (length A) i = Some ms" by blast
  note b = chainFrom_basic [OF ms]
  show ?case
  proof (cases "prev (A ! i)")
    case None
    from b have "i \<in> set ms" by (metis hd_in_set)
    with None ms less.prems show ?thesis by blast
  next
    case (Some p)
    note l = linksOk_prev [OF assms(1) less.prems Some]
    from chainsAcyclic_chain [OF assms(2) l(1)] obtain mp
      where mp: "chainFrom A (length A) p = Some mp" by blast
    obtain n where n: "length A = Suc n"
      using less.prems by (cases "length A") auto
    from mp l obtain mi where mi: "chainFrom A n i = Some mi" "mp = p # mi"
      by (auto simp: n)
    from chainFrom_mono [OF mi(1), of "length A"] ms have "mi = ms"
      by (simp add: n)
    with mi(2) have len: "length mp = Suc (length ms)" by simp
    from chainFrom_basic [OF mp] have "length mp \<le> length A" by simp
    with len have "length A - length (the (chainFrom A (length A) p)) <
        length A - length (the (chainFrom A (length A) i))"
      by (simp add: mp ms)
    from less.hyps [OF this l(1)] obtain h mh
      where h: "h < length A" "prev (A ! h) = None" "chainFrom A (length A) h = Some mh"
        "p \<in> set mh"
      by blast
    from h(4) obtain k where k: "k < length mh" "mh ! k = p"
      by (auto simp: in_set_conv_nth)
    have "Suc k < length mh"
    proof (rule ccontr)
      assume "\<not> Suc k < length mh"
      with k(1) have kl: "k = length mh - 1" and ne: "mh \<noteq> []" by auto
      have "last mh = mh ! (length mh - 1)" using ne by (rule last_conv_nth)
      with kl k(2) have "last mh = p" by simp
      with chainFrom_next [OF h(3)] l(2) show False by simp
    qed
    with chainFrom_next [OF h(3)] k(2) l(2) have "mh ! Suc k = i" by auto
    with \<open>Suc k < length mh\<close> have "i \<in> set mh" by (metis nth_mem)
    with h show ?thesis by blast
  qed
qed

lemma size_add_exact: "a + b < 2 ^ 64 \<Longrightarrow> size_add a b = a + b"
  by (simp add: size_add_def)

lemma size_sub_exact:
  assumes "b \<le> a" "a < 2 ^ 64"
  shows "size_sub a b = a - b"
proof -
  define M :: nat where "M = 2 ^ 64"
  have aM: "a < M" using assms(2) by (simp add: M_def)
  with assms(1) have b: "b mod M = b" by simp
  have "a + M - b = (a - b) + M" using assms(1) by simp
  then have "(a + M - b mod M) mod M = ((a - b) + M) mod M"
    by (simp only: b)
  also have "\<dots> = (a - b) mod M" by (rule mod_add_self2)
  also have "\<dots> = a - b" using aM by simp
  finally show ?thesis
    unfolding size_sub_def M_def .
qed

lemma chunkLoop_chain:
  "chainFrom A f i = Some ms \<Longrightarrow> chunkLoop A f (Some i) c = Some (fold (accChunk A) ms c)"
proof (induction f arbitrary: i ms c)
  case 0
  then show ?case by simp
next
  case (Suc f)
  from Suc.prems have i: "i < length A" by (simp split: if_splits)
  show ?case
  proof (cases "next (A ! i)")
    case None
    with Suc.prems i have "ms = [i]" by auto
    with None i show ?thesis by (simp add: accChunk_def Let_def)
  next
    case (Some j)
    with Suc.prems i obtain ms' where ms': "chainFrom A f j = Some ms'" "ms = i # ms'"
      by auto
    from Suc.IH [OF ms'(1)] Some i ms'(2) show ?thesis
      by (simp add: accChunk_def Let_def)
  qed
qed

lemma fold_accChunk_first: "firstAlloc (fold (accChunk A) ms c) = firstAlloc c"
  by (induction ms arbitrary: c) (simp_all add: accChunk_def)

lemma fold_accChunk_lifetime:
  "chunkFirstOpID (fold (accChunk A) ms c) \<le> chunkFirstOpID c \<and>
   chunkLastOpID c \<le> chunkLastOpID (fold (accChunk A) ms c) \<and>
   (\<forall>m \<in> set ms. chunkFirstOpID (fold (accChunk A) ms c) \<le> firstOpID (A ! m) \<and>
                  lastOpID (A ! m) \<le> chunkLastOpID (fold (accChunk A) ms c))"
proof (induction ms arbitrary: c)
  case Nil
  then show ?case by simp
next
  case (Cons m ms)
  from Cons.IH [of "accChunk A m c"] show ?case
    by (auto simp: accChunk_def)
qed

lemma fold_accChunk_size:
  "chunkByteSize c + sizesOf A ms < 2 ^ 64 \<Longrightarrow>
   chunkByteSize (fold (accChunk A) ms c) = chunkByteSize c + sizesOf A ms"
proof (induction ms arbitrary: c)
  case Nil
  then show ?case by (simp add: sizesOf_def)
next
  case (Cons m ms)
  from Cons.prems have "chunkByteSize c + byteSize (A ! m) < 2 ^ 64"
    by (simp add: sizesOf_def)
  then have s: "chunkByteSize (accChunk A m c) = chunkByteSize c + byteSize (A ! m)"
    by (simp add: accChunk_def size_add_exact)
  with Cons.prems have "chunkByteSize (accChunk A m c) + sizesOf A ms < 2 ^ 64"
    by (simp add: sizesOf_def)
  from Cons.IH [OF this] s show ?case by (simp add: sizesOf_def)
qed

lemma sizesOf_shape: "shape A = shape B \<Longrightarrow> \<forall>m \<in> set ms. m < length A \<Longrightarrow> sizesOf A ms = sizesOf B ms"
  unfolding sizesOf_def by (rule arg_cong [where f = sum_list]) (simp add: shape_nth(3))

lemma members_chain:
  assumes "chainsAcyclic A" "h < length A"
  shows "chainFrom A (length A) h = Some (members A h)"
  using chainsAcyclic_chain [OF assms] by (auto simp: members_def)

lemma collectChunks_heads:
  assumes "chainsAcyclic A" "\<forall>i \<in> set is. i < length A"
  shows "collectChunks A is = Some (map (chunkOf A) (filter (\<lambda>i. prev (A ! i) = None) is))"
  using assms(2)
proof (induction "is")
  case Nil
  then show ?case by simp
next
  case (Cons i "is")
  then have i: "i < length A" by simp
  from chunkLoop_chain [OF members_chain [OF assms(1) i], of "initChunk A i"]
  have "chunkLoop A (length A) (Some i) (initChunk A i) = Some (chunkOf A i)"
    by (simp add: chunkOf_def)
  with Cons show ?case by simp
qed

lemma collectChunks_all:
  assumes "chainsAcyclic A"
  shows "collectChunks A [0 ..< length A] = Some (map (chunkOf A) (heads A))"
  using collectChunks_heads [OF assms, of "[0 ..< length A]"] by (simp add: heads_def)

lemma findGap_spec:
  assumes "sortedOff A xs"
    and "\<forall>x \<in> set xs. endOf A x \<le> hw"
    and "cur \<le> hw" "hw + chunkByteSize c < 2 ^ 64"
    and "\<forall>d \<in> D. overlapsChunk A c d \<longrightarrow> endOf A d \<le> cur"
    and "best = SIZE_MAX \<or> (best \<le> hw \<and> safeAt A c (D \<union> set xs) best)"
    and "findGap A c xs (cur, best, gap) = (cur', best', gap')"
  shows "cur' \<le> hw \<and>
         (\<forall>d \<in> D \<union> set xs. overlapsChunk A c d \<longrightarrow> endOf A d \<le> cur') \<and>
         (best' = SIZE_MAX \<or> (best' \<le> hw \<and> safeAt A c (D \<union> set xs) best'))"
  using assms
proof (induction xs arbitrary: cur best gap D)
  case Nil
  then show ?case by simp
next
  case (Cons x xs)
  have sorted_tl: "sortedOff A xs"
    using Cons.prems(1) by (simp add: sortedOff_def)
  have later: "\<forall>y \<in> set xs. byteOffset (A ! x) \<le> byteOffset (A ! y)"
    using Cons.prems(1) by (simp add: sortedOff_def)
  have ends_tl: "\<forall>y \<in> set xs. endOf A y \<le> hw"
    using Cons.prems(2) by simp
  have endx: "endOf A x \<le> hw"
    using Cons.prems(2) by simp
  have sets: "insert x D \<union> set xs = D \<union> set (x # xs)"
    by auto
  show ?case
  proof (cases "overlapsChunk A c x")
    case False
    then have run: "findGap A c xs (cur, best, gap) = (cur', best', gap')"
      using Cons.prems(7) by (simp add: overlapsChunk_def Let_def)
    have d: "\<forall>d \<in> insert x D. overlapsChunk A c d \<longrightarrow> endOf A d \<le> cur"
      using False Cons.prems(5) by simp
    have b: "best = SIZE_MAX \<or> (best \<le> hw \<and> safeAt A c (insert x D \<union> set xs) best)"
      unfolding sets by (rule Cons.prems(6))
    from Cons.IH [OF sorted_tl ends_tl Cons.prems(3,4) d b run, unfolded sets]
    show ?thesis .
  next
    case True
    define fits where "fits \<longleftrightarrow> cur + chunkByteSize c \<le> byteOffset (A ! x) \<and>
        size_sub (byteOffset (A ! x)) cur < gap"
    define best1 where "best1 = (if fits then cur else best)"
    define gap1 where "gap1 = (if fits then size_sub (byteOffset (A ! x)) cur else gap)"
    define cur1 where "cur1 = max cur (endOf A x)"
    have e1: "size_add cur (chunkByteSize c) = cur + chunkByteSize c"
      using Cons.prems(3,4) by (intro size_add_exact) simp
    have e2: "size_add (byteOffset (A ! x)) (byteSize (A ! x)) = endOf A x"
      using endx Cons.prems(4) unfolding endOf_def by (intro size_add_exact) simp
    have cond: "(size_add cur (chunkByteSize c) \<le> byteOffset (A ! x) \<and>
        size_sub (byteOffset (A ! x)) cur < gap) = fits"
      by (simp add: fits_def e1)
    have nov: "\<not> (lastOpID (A ! x) < chunkFirstOpID c \<or> firstOpID (A ! x) > chunkLastOpID c)"
      using True by (simp add: overlapsChunk_def)
    have "findGap A c (x # xs) (cur, best, gap) = findGap A c xs (cur1, best1, gap1)"
    proof (cases fits)
      case True
      then show ?thesis
        using nov by (simp add: Let_def cond e2 best1_def gap1_def cur1_def)
    next
      case False
      then show ?thesis
        using nov by (simp add: Let_def cond e2 best1_def gap1_def cur1_def)
    qed
    with Cons.prems(7) have run: "findGap A c xs (cur1, best1, gap1) = (cur', best', gap')"
      by simp
    have c1: "cur1 \<le> hw"
      using Cons.prems(3) endx by (simp add: cur1_def)
    have d: "\<forall>d \<in> insert x D. overlapsChunk A c d \<longrightarrow> endOf A d \<le> cur1"
      using Cons.prems(5) by (auto simp: cur1_def)
    have b: "best1 = SIZE_MAX \<or> (best1 \<le> hw \<and> safeAt A c (insert x D \<union> set xs) best1)"
    proof (cases fits)
      case False
      with Cons.prems(6) show ?thesis by (simp add: best1_def sets)
    next
      case fit: True
      have "safeAt A c (insert x D \<union> set xs) cur"
        unfolding safeAt_def
      proof (intro ballI impI)
        fix d assume dd: "d \<in> insert x D \<union> set xs" and ov: "overlapsChunk A c d"
        consider "d \<in> D" | "d = x" | "d \<in> set xs" using dd by blast
        then show "endOf A d \<le> cur \<or> cur + chunkByteSize c \<le> byteOffset (A ! d)"
        proof cases
          case 1
          with Cons.prems(5) ov show ?thesis by simp
        next
          case 2
          with fit show ?thesis by (simp add: fits_def)
        next
          case 3
          with later have "byteOffset (A ! x) \<le> byteOffset (A ! d)" by simp
          with fit show ?thesis by (simp add: fits_def)
        qed
      qed
      with fit Cons.prems(3) show ?thesis by (simp add: best1_def)
    qed
    from Cons.IH [OF sorted_tl ends_tl c1 Cons.prems(4) d b run, unfolded sets]
    show ?thesis .
  qed
qed

lemma findGap_offset:
  assumes "sortedOff A act"
    and "\<forall>x \<in> set act. endOf A x \<le> hw"
    and "hw + chunkByteSize c < 2 ^ 64"
    and "findGap A c act (0, SIZE_MAX, SIZE_MAX) = (cur, best, gap)"
  shows "(if best = SIZE_MAX then cur else best) \<le> hw \<and>
         safeAt A c (set act) (if best = SIZE_MAX then cur else best)"
proof -
  have "cur \<le> hw \<and>
         (\<forall>d \<in> {} \<union> set act. overlapsChunk A c d \<longrightarrow> endOf A d \<le> cur) \<and>
         (best = SIZE_MAX \<or> (best \<le> hw \<and> safeAt A c ({} \<union> set act) best))"
    by (rule findGap_spec [OF assms(1,2) _ assms(3) _ _ assms(4)]) simp_all
  then show ?thesis
    by (auto simp: safeAt_def)
qed

lemma set_insertActive: "set (insertActive A a xs) = insert a (set xs)"
  by (induction xs) auto

lemma sorted_insertActive:
  "sortedOff A xs \<Longrightarrow> sortedOff A (insertActive A a xs)"
  unfolding sortedOff_def
  by (induction xs) (auto simp: set_insertActive)

lemma sortedOff_cong:
  assumes "\<forall>i \<in> set xs. byteOffset (B ! i) = byteOffset (A ! i)"
  shows "sortedOff B xs = sortedOff A xs"
proof -
  have "map (\<lambda>i. byteOffset (B ! i)) xs = map (\<lambda>i. byteOffset (A ! i)) xs"
    using assms by (intro map_cong refl) simp
  then show ?thesis by (simp only: sortedOff_def)
qed

lemma assignLoop_chain:
  "chainFrom A f i = Some ms \<Longrightarrow>
   assignLoop f (Some i) (A, act, off) = Some (assignAll ms (A, act, off))"
proof (induction f arbitrary: i ms A act off)
  case 0
  then show ?case by simp
next
  case (Suc f)
  from Suc.prems have i: "i < length A" by (simp split: if_splits)
  let ?A1 = "A[i := (A ! i)\<lparr>byteOffset := off\<rparr>]"
  have nx: "next (?A1 ! i) = next (A ! i)" using i by simp
  show ?case
  proof (cases "next (A ! i)")
    case None
    with Suc.prems i have "ms = [i]" by auto
    with None i nx show ?thesis by (simp add: Let_def)
  next
    case (Some j)
    with Suc.prems i obtain ms' where ms': "chainFrom A f j = Some ms'" "ms = i # ms'"
      by auto
    have "chainFrom ?A1 f j = Some ms'"
      using ms'(1) chainFrom_shape [OF shape_set_offset, of A i off f j] by simp
    from Suc.IH [OF this] Some i nx ms'(2) show ?thesis
      by (simp add: Let_def)
  qed
qed

lemma assignAll_spec:
  assumes "distinct ms" "\<forall>m \<in> set ms. m < length A" "set ms \<inter> set act = {}"
    and "sortedOff A act" "off + sizesOf A ms < 2 ^ 64"
    and "assignAll ms (A, act, off) = (A', act', e)"
  shows "assignedOk A ms off act A' act' e"
  using assms
proof (induction ms arbitrary: A act off)
  case Nil
  then show ?case by (simp add: assignedOk_def sizesOf_def)
next
  case (Cons m ms)
  define A1 where "A1 = A[m := (A ! m)\<lparr>byteOffset := off\<rparr>]"
  define act1 where "act1 = insertActive A1 m act"
  define off1 where "off1 = off + byteSize (A ! m)"
  have m: "m < length A" "m \<notin> set ms" "m \<notin> set act"
    using Cons.prems(1,2,3) by auto
  have A1m: "A1 ! m = (A ! m)\<lparr>byteOffset := off\<rparr>"
    using m(1) by (simp add: A1_def)
  have A1o: "A1 ! i = A ! i" if "i \<noteq> m" for i
    using that by (simp add: A1_def)
  have sh1: "shape A1 = shape A"
    unfolding A1_def by (rule shape_set_offset)
  have len1: "length A1 = length A"
    by (simp add: A1_def)
  have szs: "sizesOf A (m # ms) = byteSize (A ! m) + sizesOf A ms"
    by (simp add: sizesOf_def)
  have szs1: "sizesOf A1 ms = sizesOf A ms"
    using Cons.prems(2) by (intro sizesOf_shape [OF sh1]) (simp add: len1)
  have ex: "size_add off (byteSize (A1 ! m)) = off1"
    using Cons.prems(5) unfolding off1_def A1m szs by (simp add: size_add_exact)
  have run: "assignAll ms (A1, act1, off1) = (A', act', e)"
    using Cons.prems(6) ex by (simp add: A1_def [symmetric] act1_def Let_def)
  have "\<forall>i \<in> set act. byteOffset (A1 ! i) = byteOffset (A ! i)"
  proof
    fix i assume "i \<in> set act"
    with m(3) have "i \<noteq> m" by blast
    then show "byteOffset (A1 ! i) = byteOffset (A ! i)" by (simp add: A1o)
  qed
  then have "sortedOff A1 act = sortedOff A act"
    by (rule sortedOff_cong)
  with Cons.prems(4) have so1: "sortedOff A1 act1"
    unfolding act1_def by (intro sorted_insertActive) simp
  have dj1: "set ms \<inter> set act1 = {}"
    using Cons.prems(1,3) by (auto simp: act1_def set_insertActive)
  have b1: "off1 + sizesOf A1 ms < 2 ^ 64"
    using Cons.prems(5) by (simp add: off1_def szs szs1)
  have "assignedOk A1 ms off1 act1 A' act' e"
    using Cons.prems(1,2) by (intro Cons.IH [OF _ _ dj1 so1 b1 run]) (simp_all add: len1)
  then have ih:
    "shape A' = shape A1" "e = off1 + sizesOf A1 ms" "set act' = set act1 \<union> set ms"
    "sortedOff A' act'" "\<forall>i. i \<notin> set ms \<longrightarrow> A' ! i = A1 ! i"
    "\<forall>m' \<in> set ms. off1 \<le> byteOffset (A' ! m') \<and> endOf A' m' \<le> off1 + sizesOf A1 ms"
    "ms \<noteq> [] \<longrightarrow> byteOffset (A' ! hd ms) = off1"
    "\<forall>k. Suc k < length ms \<longrightarrow> byteOffset (A' ! (ms ! Suc k)) = endOf A' (ms ! k)"
    "\<forall>a \<in> set ms. \<forall>b \<in> set ms. a \<noteq> b \<longrightarrow>
         endOf A' a \<le> byteOffset (A' ! b) \<or> endOf A' b \<le> byteOffset (A' ! a)"
    unfolding assignedOk_def by blast+
  have A'm: "A' ! m = (A ! m)\<lparr>byteOffset := off\<rparr>"
    using ih(5) m(2) A1m by simp
  have offm: "byteOffset (A' ! m) = off" and endm: "endOf A' m = off1"
    by (simp_all add: A'm endOf_def off1_def)
  have c1: "shape A' = shape A"
    using ih(1) sh1 by simp
  have c2: "e = off + sizesOf A (m # ms)"
    using ih(2) by (simp add: off1_def szs szs1)
  have c3: "set act' = set act \<union> set (m # ms)"
    using ih(3) by (auto simp: act1_def set_insertActive)
  have c5: "\<forall>i. i \<notin> set (m # ms) \<longrightarrow> A' ! i = A ! i"
    using ih(5) A1o by simp
  have c6: "\<forall>a \<in> set (m # ms). off \<le> byteOffset (A' ! a) \<and>
      endOf A' a \<le> off + sizesOf A (m # ms)"
  proof
    fix a assume "a \<in> set (m # ms)"
    then consider "a = m" | "a \<in> set ms" by auto
    then show "off \<le> byteOffset (A' ! a) \<and> endOf A' a \<le> off + sizesOf A (m # ms)"
    proof cases
      case 1
      then show ?thesis by (simp add: offm endm off1_def szs)
    next
      case 2
      with ih(6) have "off1 \<le> byteOffset (A' ! a)" "endOf A' a \<le> off1 + sizesOf A1 ms"
        by simp_all
      then show ?thesis by (simp add: off1_def szs szs1)
    qed
  qed
  have c7: "m # ms \<noteq> [] \<longrightarrow> byteOffset (A' ! hd (m # ms)) = off"
    by (simp add: offm)
  have c8: "\<forall>k. Suc k < length (m # ms) \<longrightarrow>
      byteOffset (A' ! ((m # ms) ! Suc k)) = endOf A' ((m # ms) ! k)"
  proof (intro allI impI)
    fix k assume k: "Suc k < length (m # ms)"
    show "byteOffset (A' ! ((m # ms) ! Suc k)) = endOf A' ((m # ms) ! k)"
    proof (cases k)
      case 0
      from k have ne: "ms \<noteq> []" by auto
      then have "ms ! 0 = hd ms" by (simp add: hd_conv_nth)
      with ih(7) ne 0 show ?thesis by (simp add: endm)
    next
      case (Suc k')
      with k ih(8) show ?thesis by simp
    qed
  qed
  have c9: "\<forall>a \<in> set (m # ms). \<forall>b \<in> set (m # ms). a \<noteq> b \<longrightarrow>
         endOf A' a \<le> byteOffset (A' ! b) \<or> endOf A' b \<le> byteOffset (A' ! a)"
  proof (intro ballI impI)
    fix a b assume ab: "a \<in> set (m # ms)" "b \<in> set (m # ms)" "a \<noteq> b"
    consider "a = m" "b \<in> set ms" | "b = m" "a \<in> set ms" | "a \<in> set ms" "b \<in> set ms"
      using ab by auto
    then show "endOf A' a \<le> byteOffset (A' ! b) \<or> endOf A' b \<le> byteOffset (A' ! a)"
    proof cases
      case 1
      with ih(6) show ?thesis by (simp add: endm)
    next
      case 2
      with ih(6) show ?thesis by (simp add: endm)
    next
      case 3
      with ih(9) ab(3) show ?thesis by simp
    qed
  qed
  show ?case
    unfolding assignedOk_def
    using c1 c2 c3 ih(4) c5 c6 c7 c8 c9 by (intro conjI)
qed

lemma sizesOf_placed: "distinct ms \<Longrightarrow> sizesOf A ms = placedSize A (set ms)"
  by (simp add: sizesOf_def placedSize_def sum_list_distinct_conv_sum_set)

lemma placedSize_union:
  "finite P \<Longrightarrow> finite Q \<Longrightarrow> P \<inter> Q = {} \<Longrightarrow>
   placedSize A (P \<union> Q) = placedSize A P + placedSize A Q"
  by (simp add: placedSize_def sum.union_disjoint)

lemma placedSize_total:
  assumes "P \<subseteq> {0 ..< length A}"
  shows "placedSize A P \<le> sum_list (map byteSize A)"
proof -
  have "sum_list (map byteSize A) = (\<Sum>i = 0 ..< length A. byteSize (A ! i))"
    by (simp add: sum_list_sum_nth)
  moreover have "placedSize A P \<le> (\<Sum>i = 0 ..< length A. byteSize (A ! i))"
    unfolding placedSize_def using assms by (intro sum_mono2) simp_all
  ultimately show ?thesis by simp
qed

lemma lifetimesOverlap_sym: "lifetimesOverlap a b = lifetimesOverlap b a"
  by (auto simp: lifetimesOverlap_def)

lemma planInv_extend:
  assumes inv: "planInv A0 A P hw"
    and ok: "assignedOk A ms off act A' act' e"
    and dj: "set ms \<inter> P = {}"
    and lt: "\<forall>m \<in> set ms. m < length A"
    and safe: "safeAt A c P off"
    and csz: "chunkByteSize c = sizesOf A ms"
    and life: "\<forall>m \<in> set ms. chunkFirstOpID c \<le> firstOpID (A ! m) \<and>
                 lastOpID (A ! m) \<le> chunkLastOpID c"
    and nxt: "\<forall>k. Suc k < length ms \<longrightarrow> next (A ! (ms ! k)) = Some (ms ! Suc k)"
    and lst: "next (A ! last ms) = None"
  shows "planInv A0 A' (P \<union> set ms) (max hw e)"
proof -
  from inv have i1: "shape A = shape A0"
    and i2: "\<forall>i \<in> P. i < length A \<and> endOf A i \<le> hw"
    and i3: "\<forall>a \<in> P. \<forall>b \<in> P. a \<noteq> b \<and> lifetimesOverlap (A ! a) (A ! b) \<longrightarrow>
         endOf A a \<le> byteOffset (A ! b) \<or> endOf A b \<le> byteOffset (A ! a)"
    and i4: "\<forall>a \<in> P. \<forall>b. next (A ! a) = Some b \<longrightarrow> b \<in> P \<and> byteOffset (A ! b) = endOf A a"
    unfolding planInv_def by blast+
  from ok have o1: "shape A' = shape A" and o2: "e = off + sizesOf A ms"
    and o5: "\<forall>i. i \<notin> set ms \<longrightarrow> A' ! i = A ! i"
    and o6: "\<forall>m \<in> set ms. off \<le> byteOffset (A' ! m) \<and> endOf A' m \<le> off + sizesOf A ms"
    and o8: "\<forall>k. Suc k < length ms \<longrightarrow> byteOffset (A' ! (ms ! Suc k)) = endOf A' (ms ! k)"
    and o9: "\<forall>m \<in> set ms. \<forall>m' \<in> set ms. m \<noteq> m' \<longrightarrow>
         endOf A' m \<le> byteOffset (A' ! m') \<or> endOf A' m' \<le> byteOffset (A' ! m)"
    unfolding assignedOk_def by blast+
  have len: "length A' = length A"
    using o1 by (rule shape_length)
  have same: "A' ! i = A ! i" if "i \<in> P" for i
    using that dj o5 by blast
  have sameE: "endOf A' i = endOf A i" if "i \<in> P" for i
    using same [OF that] by (simp add: endOf_def)
  have fld: "firstOpID (A' ! m) = firstOpID (A ! m)" "lastOpID (A' ! m) = lastOpID (A ! m)"
    "next (A' ! m) = next (A ! m)" if "m \<in> set ms" for m
  proof -
    from that lt len have "m < length A'" by simp
    from shape_nth [OF o1 this] show "firstOpID (A' ! m) = firstOpID (A ! m)"
      "lastOpID (A' ! m) = lastOpID (A ! m)" "next (A' ! m) = next (A ! m)"
      by simp_all
  qed
  have c1: "shape A' = shape A0"
    using o1 i1 by simp
  have c2: "\<forall>i \<in> P \<union> set ms. i < length A' \<and> endOf A' i \<le> max hw e"
  proof
    fix i assume "i \<in> P \<union> set ms"
    then consider "i \<in> P" | "i \<in> set ms" by blast
    then show "i < length A' \<and> endOf A' i \<le> max hw e"
    proof cases
      case 1
      with i2 have "i < length A" "endOf A i \<le> hw" by simp_all
      with sameE [OF 1] len show ?thesis by simp
    next
      case 2
      with o6 have "endOf A' i \<le> off + sizesOf A ms" by simp
      with 2 lt len o2 show ?thesis by simp
    qed
  qed
  have cross: "endOf A' d \<le> byteOffset (A' ! m) \<or> endOf A' m \<le> byteOffset (A' ! d)"
    if d: "d \<in> P" and m: "m \<in> set ms" and ov: "lifetimesOverlap (A' ! d) (A' ! m)" for d m
  proof -
    from ov have "firstOpID (A ! d) \<le> lastOpID (A ! m)" "firstOpID (A ! m) \<le> lastOpID (A ! d)"
      by (simp_all add: lifetimesOverlap_def same [OF d] fld [OF m])
    moreover from life m have "chunkFirstOpID c \<le> firstOpID (A ! m)"
      "lastOpID (A ! m) \<le> chunkLastOpID c" by simp_all
    ultimately have "overlapsChunk A c d"
      by (simp add: overlapsChunk_def)
    with safe d have "endOf A d \<le> off \<or> off + chunkByteSize c \<le> byteOffset (A ! d)"
      unfolding safeAt_def by blast
    moreover from o6 m have "off \<le> byteOffset (A' ! m)" "endOf A' m \<le> off + sizesOf A ms"
      by simp_all
    ultimately show ?thesis
      by (auto simp: sameE [OF d] same [OF d] csz)
  qed
  have c3: "\<forall>a \<in> P \<union> set ms. \<forall>b \<in> P \<union> set ms.
      a \<noteq> b \<and> lifetimesOverlap (A' ! a) (A' ! b) \<longrightarrow>
      endOf A' a \<le> byteOffset (A' ! b) \<or> endOf A' b \<le> byteOffset (A' ! a)"
  proof (intro ballI impI)
    fix a b assume a: "a \<in> P \<union> set ms" and b: "b \<in> P \<union> set ms"
      and ab: "a \<noteq> b \<and> lifetimesOverlap (A' ! a) (A' ! b)"
    consider "a \<in> P" "b \<in> P" | "a \<in> P" "b \<in> set ms" | "a \<in> set ms" "b \<in> P"
      | "a \<in> set ms" "b \<in> set ms"
      using a b by blast
    then show "endOf A' a \<le> byteOffset (A' ! b) \<or> endOf A' b \<le> byteOffset (A' ! a)"
    proof cases
      case 1
      with ab have "a \<noteq> b \<and> lifetimesOverlap (A ! a) (A ! b)"
        by (simp add: same)
      with i3 1 have "endOf A a \<le> byteOffset (A ! b) \<or> endOf A b \<le> byteOffset (A ! a)"
        by blast
      with 1 show ?thesis by (simp add: same sameE)
    next
      case 2
      with ab cross [of a b] show ?thesis by simp
    next
      case 3
      from ab have "lifetimesOverlap (A' ! b) (A' ! a)"
        by (simp add: lifetimesOverlap_sym)
      with 3 cross [of b a] show ?thesis by blast
    next
      case 4
      with o9 ab show ?thesis by blast
    qed
  qed
  have c4: "\<forall>a \<in> P \<union> set ms. \<forall>b. next (A' ! a) = Some b \<longrightarrow>
      b \<in> P \<union> set ms \<and> byteOffset (A' ! b) = endOf A' a"
  proof (intro ballI allI impI)
    fix a b assume a: "a \<in> P \<union> set ms" and n: "next (A' ! a) = Some b"
    from a consider "a \<in> P" | "a \<in> set ms" by blast
    then show "b \<in> P \<union> set ms \<and> byteOffset (A' ! b) = endOf A' a"
    proof cases
      case 1
      with n have "next (A ! a) = Some b" by (simp add: same)
      with i4 1 have b: "b \<in> P" "byteOffset (A ! b) = endOf A a" by blast+
      with 1 show ?thesis by (simp add: same sameE)
    next
      case 2
      then obtain k where k: "k < length ms" "ms ! k = a"
        by (auto simp: in_set_conv_nth)
      from n 2 have na: "next (A ! a) = Some b" by (simp add: fld)
      show ?thesis
      proof (cases "Suc k < length ms")
        case True
        from nxt True have "next (A ! (ms ! k)) = Some (ms ! Suc k)" by blast
        with na have b: "b = ms ! Suc k" unfolding k(2) by simp
        with True have "b \<in> set ms" by simp
        moreover from o8 True have "byteOffset (A' ! (ms ! Suc k)) = endOf A' (ms ! k)" by blast
        then have "byteOffset (A' ! b) = endOf A' a" unfolding k(2) b .
        ultimately show ?thesis by simp
      next
        case False
        with k have "a = last ms"
          by (metis Suc_lessI diff_Suc_1 last_conv_nth length_greater_0_conv less_nat_zero_code
              list.size(3) not_less_eq)
        with lst na show ?thesis by simp
      qed
    qed
  qed
  show ?thesis
    unfolding planInv_def using c1 c2 c3 c4 by (intro conjI)
qed

lemma placeChunk_step:
  assumes ac: "chainsAcyclic A0"
    and inv: "planInv A0 A (set act) hw"
    and so: "sortedOff A act"
    and h: "h < length A0"
    and dj: "set (members A0 h) \<inter> set act = {}"
    and hwb: "hw \<le> placedSize A0 (set act)"
    and tot: "sum_list (map byteSize A0) < 2 ^ 64"
  shows "\<exists>A' act' hw'. placeChunk (chunkOf A0 h) (A, act, hw) = Some (A', act', hw') \<and>
      planInv A0 A' (set act') hw' \<and> sortedOff A' act' \<and>
      set act' = set act \<union> set (members A0 h) \<and> hw' \<le> placedSize A0 (set act')"
proof -
  define ms where "ms = members A0 h"
  define c where "c = chunkOf A0 h"
  from inv have sh: "shape A = shape A0"
    and ends: "\<forall>i \<in> set act. i < length A \<and> endOf A i \<le> hw"
    unfolding planInv_def by blast+
  have len: "length A = length A0"
    using sh by (rule shape_length)
  have ch0: "chainFrom A0 (length A0) h = Some ms"
    unfolding ms_def by (rule members_chain [OF ac h])
  have ch: "chainFrom A (length A) h = Some ms"
    using ch0 chainFrom_shape [OF sh, of "length A0" h] len by simp
  note b = chainFrom_basic [OF ch0]
  have ne: "ms \<noteq> []" and lt0: "\<forall>m \<in> set ms. m < length A0"
    using b by simp_all
  have lt: "\<forall>m \<in> set ms. m < length A"
    using lt0 len by simp
  have di: "distinct ms"
    using ch0 by (rule chainFrom_distinct)
  have sz: "sizesOf A ms = sizesOf A0 ms"
    using sh lt by (rule sizesOf_shape)
  have sub: "set act \<union> set ms \<subseteq> {0 ..< length A0}"
    using ends lt0 len by auto
  have dj': "set act \<inter> set ms = {}"
    using dj by (auto simp: ms_def)
  have un: "placedSize A0 (set act \<union> set ms) = placedSize A0 (set act) + sizesOf A0 ms"
    using placedSize_union [of "set act" "set ms" A0] dj' sizesOf_placed [OF di, of A0]
    by simp
  have bound: "placedSize A0 (set act) + sizesOf A0 ms < 2 ^ 64"
    using placedSize_total [OF sub] tot un by simp
  have csz: "chunkByteSize c = sizesOf A0 ms"
  proof -
    have "chunkByteSize (initChunk A0 h) + sizesOf A0 ms < 2 ^ 64"
      using bound by (simp add: initChunk_def)
    from fold_accChunk_size [OF this] show ?thesis
      by (simp add: c_def chunkOf_def ms_def initChunk_def)
  qed
  have first: "firstAlloc c = h"
    by (simp add: c_def chunkOf_def fold_accChunk_first initChunk_def)
  have life0: "\<forall>m \<in> set ms. chunkFirstOpID c \<le> firstOpID (A0 ! m) \<and>
      lastOpID (A0 ! m) \<le> chunkLastOpID c"
    using fold_accChunk_lifetime [of A0 ms "initChunk A0 h"]
    by (simp add: c_def chunkOf_def ms_def)
  have life: "\<forall>m \<in> set ms. chunkFirstOpID c \<le> firstOpID (A ! m) \<and>
      lastOpID (A ! m) \<le> chunkLastOpID c"
  proof
    fix m assume m: "m \<in> set ms"
    with lt have "m < length A" by simp
    from shape_nth(4,5) [OF sh this] life0 m
    show "chunkFirstOpID c \<le> firstOpID (A ! m) \<and> lastOpID (A ! m) \<le> chunkLastOpID c"
      by simp
  qed
  obtain cur best gap where fg: "findGap A c act (0, SIZE_MAX, SIZE_MAX) = (cur, best, gap)"
    by (rule prod_cases3)
  define off where "off = (if best = SIZE_MAX then cur else best)"
  have hb: "hw + chunkByteSize c < 2 ^ 64"
    using bound hwb csz by simp
  have ends': "\<forall>x \<in> set act. endOf A x \<le> hw"
    using ends by simp
  from findGap_offset [OF so ends' hb fg]
  have offhw: "off \<le> hw" and safe: "safeAt A c (set act) off"
    by (simp_all add: off_def)
  obtain A' act' e where aa: "assignAll ms (A, act, off) = (A', act', e)"
    by (rule prod_cases3)
  have al: "assignLoop (length A) (Some h) (A, act, off) = Some (A', act', e)"
    using assignLoop_chain [OF ch, of act off] aa by simp
  have ob: "off + sizesOf A ms < 2 ^ 64"
    using offhw hwb bound sz by simp
  have djm: "set ms \<inter> set act = {}"
    using dj' by blast
  have ok: "assignedOk A ms off act A' act' e"
    by (rule assignAll_spec [OF di lt djm so ob aa])
  have pc: "placeChunk c (A, act, hw) = Some (A', act', max hw e)"
    by (simp add: placeChunk_def fg first al off_def [symmetric] Let_def)
  note nx = chainFrom_next [OF ch]
  have inv': "planInv A0 A' (set act \<union> set ms) (max hw e)"
    using planInv_extend [OF inv ok djm lt safe _ life] nx csz sz by simp
  from ok have sets: "set act' = set act \<union> set ms" and so': "sortedOff A' act'"
    and e: "e = off + sizesOf A ms"
    unfolding assignedOk_def by blast+
  have "max hw e \<le> placedSize A0 (set act')"
    using e offhw hwb sz un by (simp add: sets)
  with pc inv' sets so' show ?thesis
    by (simp add: c_def [symmetric] ms_def [symmetric])
qed

text \<open>The loop over a list of chunks, given by the heads of their chains.\<close>

lemma placeChunks_inv:
  assumes ac: "chainsAcyclic A0" and lk: "linksOk A0"
    and tot: "sum_list (map byteSize A0) < 2 ^ 64"
  shows "distinct hs \<Longrightarrow> \<forall>h \<in> set hs. h < length A0 \<and> prev (A0 ! h) = None \<Longrightarrow>
     planInv A0 A (set act) hw \<Longrightarrow> sortedOff A act \<Longrightarrow> hw \<le> placedSize A0 (set act) \<Longrightarrow>
     \<forall>h \<in> set hs. set (members A0 h) \<inter> set act = {} \<Longrightarrow>
     \<exists>A' act' hw'. placeChunks (map (chunkOf A0) hs) (A, act, hw) = Some (A', act', hw') \<and>
       planInv A0 A' (set act') hw' \<and>
       set act' = set act \<union> (\<Union>h \<in> set hs. set (members A0 h))"
proof (induction hs arbitrary: A act hw)
  case Nil
  then show ?case by simp
next
  case (Cons h hs)
  have h: "h < length A0" "prev (A0 ! h) = None"
    using Cons.prems(2) by simp_all
  have dj: "set (members A0 h) \<inter> set act = {}"
    using Cons.prems(6) by simp
  from placeChunk_step [OF ac Cons.prems(3,4) h(1) dj Cons.prems(5) tot]
  obtain A1 act1 hw1 where
    pc: "placeChunk (chunkOf A0 h) (A, act, hw) = Some (A1, act1, hw1)"
    and inv1: "planInv A0 A1 (set act1) hw1" and so1: "sortedOff A1 act1"
    and set1: "set act1 = set act \<union> set (members A0 h)"
    and hw1: "hw1 \<le> placedSize A0 (set act1)"
    by blast
  have d: "distinct hs" and hd: "\<forall>h' \<in> set hs. h' < length A0 \<and> prev (A0 ! h') = None"
    using Cons.prems(1,2) by simp_all
  have dj1: "\<forall>h' \<in> set hs. set (members A0 h') \<inter> set act1 = {}"
  proof
    fix h' assume h': "h' \<in> set hs"
    with Cons.prems(1) have neq: "h' \<noteq> h" by auto
    from h' hd have l': "h' < length A0" and p': "prev (A0 ! h') = None" by simp_all
    from chains_disjoint [OF lk members_chain [OF ac l'] p' members_chain [OF ac h(1)] h(2) neq]
    have "set (members A0 h') \<inter> set (members A0 h) = {}" .
    moreover from Cons.prems(6) h' have "set (members A0 h') \<inter> set act = {}" by simp
    ultimately show "set (members A0 h') \<inter> set act1 = {}"
      unfolding set1 by blast
  qed
  from Cons.IH [OF d hd inv1 so1 hw1 dj1]
  obtain A' act' hw' where
    "placeChunks (map (chunkOf A0) hs) (A1, act1, hw1) = Some (A', act', hw')"
    "planInv A0 A' (set act') hw'"
    "set act' = set act1 \<union> (\<Union>h \<in> set hs. set (members A0 h))"
    by blast
  with pc set1 show ?case
    by auto
qed

lemma insort_key_map:
  "insort_key f (g x) (map g ys) = map g (insort_key (\<lambda>a. f (g a)) x ys)"
  by (induction ys) simp_all

lemma sort_key_map: "sort_key f (map g xs) = map g (sort_key (\<lambda>a. f (g a)) xs)"
  by (induction xs) (simp_all add: insort_key_map)

lemma sortChunks_heads:
  "\<exists>hs. sortChunks (map (chunkOf A0) (heads A0)) = map (chunkOf A0) hs \<and>
        distinct hs \<and> set hs = set (heads A0)"
proof -
  define hs where
    "hs = sort_key (\<lambda>h. - int (chunkByteSize (chunkOf A0 h))) (heads A0)"
  have "sortChunks (map (chunkOf A0) (heads A0)) = map (chunkOf A0) hs"
    by (simp add: sortChunks_def sort_key_map hs_def)
  moreover have "distinct hs" "set hs = set (heads A0)"
    by (simp_all add: hs_def heads_def)
  ultimately show ?thesis by blast
qed

lemma heads_cover:
  assumes "linksOk A0" "chainsAcyclic A0"
  shows "(\<Union>h \<in> set (heads A0). set (members A0 h)) = {0 ..< length A0}"
proof (intro equalityI subsetI)
  fix i assume "i \<in> (\<Union>h \<in> set (heads A0). set (members A0 h))"
  then obtain h where h: "h \<in> set (heads A0)" "i \<in> set (members A0 h)" by blast
  then have "h < length A0" by (simp add: heads_def)
  from chainFrom_basic [OF members_chain [OF assms(2) this]] h(2)
  show "i \<in> {0 ..< length A0}" by simp
next
  fix i assume "i \<in> {0 ..< length A0}"
  then have "i < length A0" by simp
  from chain_covers [OF assms this] obtain h ms where
    h: "h < length A0" "prev (A0 ! h) = None" "chainFrom A0 (length A0) h = Some ms" "i \<in> set ms"
    by blast
  then have "members A0 h = ms" by (simp add: members_def)
  moreover from h(1,2) have "h \<in> set (heads A0)" by (simp add: heads_def)
  ultimately show "i \<in> (\<Union>h \<in> set (heads A0). set (members A0 h))"
    using h(4) by blast
qed

lemma planInv_empty: "planInv A0 A0 (set []) 0"
  by (simp add: planInv_def)

lemma plan_main:
  assumes lk: "linksOk A0" and ac: "chainsAcyclic A0"
    and tot: "sum_list (map byteSize A0) < 2 ^ 64"
  shows "\<exists>A' act' hw'.
      placeChunks (sortChunks (map (chunkOf A0) (heads A0))) (A0, [], 0) = Some (A', act', hw') \<and>
      planInv A0 A' {0 ..< length A0} hw'"
proof -
  from sortChunks_heads [of A0] obtain hs where
    hs: "sortChunks (map (chunkOf A0) (heads A0)) = map (chunkOf A0) hs"
      "distinct hs" "set hs = set (heads A0)"
    by blast
  have hd: "\<forall>h \<in> set hs. h < length A0 \<and> prev (A0 ! h) = None"
    by (simp add: hs(3) heads_def)
  have so: "sortedOff A0 []"
    by (simp add: sortedOff_def)
  have z: "0 \<le> placedSize A0 (set [])"
    by simp
  have dj: "\<forall>h \<in> set hs. set (members A0 h) \<inter> set [] = {}"
    by simp
  from placeChunks_inv [OF ac lk tot hs(2) hd planInv_empty so z dj]
  obtain A' act' hw' where
    r: "placeChunks (map (chunkOf A0) hs) (A0, [], 0) = Some (A', act', hw')"
      "planInv A0 A' (set act') hw'"
      "set act' = set [] \<union> (\<Union>h \<in> set hs. set (members A0 h))"
    by blast
  from r(3) have "set act' = {0 ..< length A0}"
    by (simp add: hs(3) heads_cover [OF lk ac])
  with r(1,2) hs(1) show ?thesis by simp
qed

lemma planAllocations_inv:
  assumes "wellFormed (tensorAllocs g)"
    and "sum_list (map byteSize (tensorAllocs g)) < 2 ^ 64"
  shows "\<exists>A' hw'. planAllocations g =
        Some (g\<lparr>tensorAllocs := A', tensorScratchByteSize := hw', dirty := False\<rparr>) \<and>
      planInv (tensorAllocs g) A' {0 ..< length (tensorAllocs g)} hw'"
proof -
  from assms(1) have lk: "linksOk (tensorAllocs g)" and ac: "chainsAcyclic (tensorAllocs g)"
    by (simp_all add: wellFormed_def)
  from plan_main [OF lk ac assms(2)] obtain A' act' hw' where
    r: "placeChunks (sortChunks (map (chunkOf (tensorAllocs g)) (heads (tensorAllocs g))))
          (tensorAllocs g, [], 0) = Some (A', act', hw')"
      "planInv (tensorAllocs g) A' {0 ..< length (tensorAllocs g)} hw'"
    by blast
  have "planAllocations g =
      Some (g\<lparr>tensorAllocs := A', tensorScratchByteSize := hw', dirty := False\<rparr>)"
    by (simp add: planAllocations_def collectChunks_all [OF ac] r(1) Let_def)
  with r(2) show ?thesis by blast
qed

lemma planInv_noOverlap:
  assumes "planInv A0 A {0 ..< length A0} hw"
  shows "noOverlap A"
proof -
  from assms have sh: "shape A = shape A0"
    and i3: "\<forall>a \<in> {0 ..< length A0}. \<forall>b \<in> {0 ..< length A0}.
         a \<noteq> b \<and> lifetimesOverlap (A ! a) (A ! b) \<longrightarrow>
         endOf A a \<le> byteOffset (A ! b) \<or> endOf A b \<le> byteOffset (A ! a)"
    unfolding planInv_def by blast+
  have len: "length A = length A0" using sh by (rule shape_length)
  show ?thesis
    unfolding noOverlap_def
  proof (intro allI impI)
    fix a b assume a: "a < length A" and b: "b < length A"
      and ab: "a \<noteq> b \<and> lifetimesOverlap (A ! a) (A ! b)"
    from a b len have "a \<in> {0 ..< length A0}" "b \<in> {0 ..< length A0}" by simp_all
    with i3 ab have "endOf A a \<le> byteOffset (A ! b) \<or> endOf A b \<le> byteOffset (A ! a)"
      by blast
    then show "byteExtent (A ! a) \<inter> byteExtent (A ! b) = {}"
      by (auto simp: byteExtent_def endOf_def)
  qed
qed

lemma planInv_chainsAdjacent:
  assumes "planInv A0 A {0 ..< length A0} hw"
  shows "chainsAdjacent A"
proof -
  from assms have sh: "shape A = shape A0"
    and i4: "\<forall>a \<in> {0 ..< length A0}. \<forall>b. next (A ! a) = Some b \<longrightarrow>
        b \<in> {0 ..< length A0} \<and> byteOffset (A ! b) = endOf A a"
    unfolding planInv_def by blast+
  have len: "length A = length A0" using sh by (rule shape_length)
  show ?thesis
    unfolding chainsAdjacent_def
  proof (intro allI impI)
    fix a b assume a: "a < length A" and n: "next (A ! a) = Some b"
    from a len have "a \<in> {0 ..< length A0}" by simp
    with i4 n have "byteOffset (A ! b) = endOf A a" by blast
    then show "byteOffset (A ! b) = byteOffset (A ! a) + byteSize (A ! a)"
      by (simp add: endOf_def)
  qed
qed

lemma concatGraph_allocs: "tensorAllocs concatGraph = concatAllocs"
  by (simp add: concatGraph_def addInputProcess_def addOpDst_def addOp_def newGraph_def
      concatAllocs_def newTensorAlloc_def Let_def)

lemma concatAllocs_wellFormed: "wellFormed concatAllocs"
  by (simp add: wellFormed_def lifetimesOk_def linksOk_def chainsAcyclic_def concatAllocs_def
      newTensorAlloc_def upt_rec numeral_3_eq_3)

lemma concatAllocs_size: "sum_list (map byteSize concatAllocs) < 2 ^ 64"
  by (simp add: concatAllocs_def newTensorAlloc_def)

lemma concat_len: "length concatAllocs = Suc (Suc (Suc 0))"
  by (simp add: concatAllocs_def)

lemma concat_chunks:
  "collectChunks concatAllocs [0 ..< length concatAllocs] =
     Some [\<lparr> firstAlloc = 0, chunkFirstOpID = 0, chunkLastOpID = 2, chunkByteSize = 120 \<rparr>,
           \<lparr> firstAlloc = 2, chunkFirstOpID = 2, chunkLastOpID = 2, chunkByteSize = 40 \<rparr>]"
  unfolding concat_len
  by (simp add: concatAllocs_def newTensorAlloc_def initChunk_def size_add_def upt_rec)

lemma concat_sorted:
  "sortChunks
     [\<lparr> firstAlloc = 0, chunkFirstOpID = 0, chunkLastOpID = 2, chunkByteSize = 120 \<rparr>,
      \<lparr> firstAlloc = 2, chunkFirstOpID = 2, chunkLastOpID = 2, chunkByteSize = 40 \<rparr>] =
     [\<lparr> firstAlloc = 0, chunkFirstOpID = 0, chunkLastOpID = 2, chunkByteSize = 120 \<rparr>,
      \<lparr> firstAlloc = 2, chunkFirstOpID = 2, chunkLastOpID = 2, chunkByteSize = 40 \<rparr>]"
  by (simp add: sortChunks_def)

lemma concat_place1:
  "placeChunk \<lparr> firstAlloc = 0, chunkFirstOpID = 0, chunkLastOpID = 2, chunkByteSize = 120 \<rparr>
     (concatAllocs, [], 0) =
   Some (concatAllocs[1 := (concatAllocs ! 1)\<lparr>byteOffset := 50\<rparr>], [0, 1], 120)"
  unfolding placeChunk_def concat_len
  by (simp add: concatAllocs_def newTensorAlloc_def size_add_def SIZE_MAX_def)

lemma concat_place1':
  "concatAllocs[1 := (concatAllocs ! 1)\<lparr>byteOffset := 50\<rparr>] =
     [(newTensorAlloc \<lparr> alignedSize = 50 \<rparr> 0)\<lparr>lastOpID := 2, next := Some 1\<rparr>,
      (newTensorAlloc \<lparr> alignedSize = 70 \<rparr> 1)\<lparr>lastOpID := 2, prev := Some 0, byteOffset := 50\<rparr>,
      newTensorAlloc \<lparr> alignedSize = 40 \<rparr> 2]"
  by (simp add: concatAllocs_def newTensorAlloc_def)

lemma concat_place1'':
  "placeChunk \<lparr> firstAlloc = 0, chunkFirstOpID = 0, chunkLastOpID = 2, chunkByteSize = 120 \<rparr>
     (concatAllocs, [], 0) =
   Some ([(newTensorAlloc \<lparr> alignedSize = 50 \<rparr> 0)\<lparr>lastOpID := 2, next := Some 1\<rparr>,
      (newTensorAlloc \<lparr> alignedSize = 70 \<rparr> 1)\<lparr>lastOpID := 2, prev := Some 0, byteOffset := 50\<rparr>,
      newTensorAlloc \<lparr> alignedSize = 40 \<rparr> 2], [0, 1], 120)"
  unfolding concat_place1 concat_place1' ..

lemma concat_place2:
  "placeChunk \<lparr> firstAlloc = 2, chunkFirstOpID = 2, chunkLastOpID = 2, chunkByteSize = 40 \<rparr>
     ([(newTensorAlloc \<lparr> alignedSize = 50 \<rparr> 0)\<lparr>lastOpID := 2, next := Some 1\<rparr>,
      (newTensorAlloc \<lparr> alignedSize = 70 \<rparr> 1)\<lparr>lastOpID := 2, prev := Some 0, byteOffset := 50\<rparr>,
      newTensorAlloc \<lparr> alignedSize = 40 \<rparr> 2], [0, 1], 120) =
   Some (concatPlanned, [0, 1, 2], 160)"
  unfolding placeChunk_def
  by (simp add: concatPlanned_def newTensorAlloc_def size_add_def SIZE_MAX_def numeral_3_eq_3)

lemma plan_concatGraph:
  "planAllocations concatGraph =
     Some (concatGraph\<lparr>tensorAllocs := concatPlanned, tensorScratchByteSize := 160,
                        dirty := False\<rparr>)"
  by (simp add: planAllocations_def concatGraph_allocs concat_chunks concat_sorted
      concat_place1'' concat_place2 Let_def del: One_nat_def)

text \<open>
  C2. After \<open>planAllocations\<close> has run on well-formed records (every lifetime an interval,
  links mutual, chains acyclic) whose sizes add up to less than \<open>2\<^sup>6\<^sup>4\<close> (so that no
  \<open>size_t\<close> sum of the planner wraps around), the planner returns, it has changed nothing
  but offsets, and any two different records whose lifetimes overlap
  (\<open>a.firstOpID \<le> b.lastOpID\<close> and \<open>b.firstOpID \<le> a.lastOpID\<close>) have disjoint byte
  extents \<open>[byteOffset, byteOffset + byteSize)\<close>.
\<close>

theorem C2_overlapping_lifetimes_disjoint_bytes:
  assumes "wellFormed (tensorAllocs g)"
    and "sum_list (map byteSize (tensorAllocs g)) < 2 ^ 64"
  shows "\<exists>g'. planAllocations g = Some g' \<and>
           shape (tensorAllocs g') = shape (tensorAllocs g) \<and>
           noOverlap (tensorAllocs g')"
proof -
  from planAllocations_inv [OF assms] obtain A' hw' where
    p: "planAllocations g =
          Some (g\<lparr>tensorAllocs := A', tensorScratchByteSize := hw', dirty := False\<rparr>)"
    and inv: "planInv (tensorAllocs g) A' {0 ..< length (tensorAllocs g)} hw'"
    by blast
  from inv have "shape A' = shape (tensorAllocs g)"
    by (simp add: planInv_def)
  moreover have "noOverlap A'"
    using inv by (rule planInv_noOverlap)
  ultimately show ?thesis
    using p by simp
qed

theorem C2_overlapping_lifetimes_disjoint_bytes_witness:
  "wellFormed (tensorAllocs concatGraph) \<and>
   sum_list (map byteSize (tensorAllocs concatGraph)) < 2 ^ 64 \<and>
   planAllocations concatGraph =
     Some (concatGraph\<lparr>tensorAllocs := concatPlanned, tensorScratchByteSize := 160,
                        dirty := False\<rparr>) \<and>
   lifetimesOverlap (concatPlanned ! 1) (concatPlanned ! 2) \<and>
   noOverlap concatPlanned"
proof -
  have wf: "wellFormed (tensorAllocs concatGraph)"
    by (simp add: concatGraph_allocs concatAllocs_wellFormed)
  have sz: "sum_list (map byteSize (tensorAllocs concatGraph)) < 2 ^ 64"
    using concatAllocs_size by (simp add: concatGraph_allocs)
  from C2_overlapping_lifetimes_disjoint_bytes [OF wf sz] plan_concatGraph
  have "noOverlap concatPlanned"
    by auto
  moreover have "lifetimesOverlap (concatPlanned ! 1) (concatPlanned ! 2)"
    by (simp add: concatPlanned_def lifetimesOverlap_def newTensorAlloc_def)
  ultimately show ?thesis
    using wf sz plan_concatGraph by simp
qed

text \<open>
  C3. After \<open>planAllocations\<close> has run on well-formed records whose sizes add up to less
  than \<open>2\<^sup>6\<^sup>4\<close>, the planner returns, it has changed nothing but offsets, and for every
  record \<open>a\<close> with \<open>a.next = b\<close> the offsets satisfy
  \<open>b.byteOffset = a.byteOffset + a.byteSize\<close>.
\<close>

theorem C3_chain_members_adjacent:
  assumes "wellFormed (tensorAllocs g)"
    and "sum_list (map byteSize (tensorAllocs g)) < 2 ^ 64"
  shows "\<exists>g'. planAllocations g = Some g' \<and>
           shape (tensorAllocs g') = shape (tensorAllocs g) \<and>
           chainsAdjacent (tensorAllocs g')"
proof -
  from planAllocations_inv [OF assms] obtain A' hw' where
    p: "planAllocations g =
          Some (g\<lparr>tensorAllocs := A', tensorScratchByteSize := hw', dirty := False\<rparr>)"
    and inv: "planInv (tensorAllocs g) A' {0 ..< length (tensorAllocs g)} hw'"
    by blast
  from inv have "shape A' = shape (tensorAllocs g)"
    by (simp add: planInv_def)
  moreover have "chainsAdjacent A'"
    using inv by (rule planInv_chainsAdjacent)
  ultimately show ?thesis
    using p by simp
qed

theorem C3_chain_members_adjacent_witness:
  "wellFormed (tensorAllocs concatGraph) \<and>
   sum_list (map byteSize (tensorAllocs concatGraph)) < 2 ^ 64 \<and>
   next (concatPlanned ! 0) = Some 1 \<and>
   map byteOffset concatPlanned = [0, 50, 120] \<and>
   map byteSize concatPlanned = [50, 70, 40] \<and>
   chainsAdjacent concatPlanned"
proof -
  have wf: "wellFormed (tensorAllocs concatGraph)"
    by (simp add: concatGraph_allocs concatAllocs_wellFormed)
  have sz: "sum_list (map byteSize (tensorAllocs concatGraph)) < 2 ^ 64"
    using concatAllocs_size by (simp add: concatGraph_allocs)
  from C3_chain_members_adjacent [OF wf sz] plan_concatGraph
  have "chainsAdjacent concatPlanned"
    by auto
  moreover have "next (concatPlanned ! 0) = Some 1"
    "map byteOffset concatPlanned = [0, 50, 120]" "map byteSize concatPlanned = [50, 70, 40]"
    by (simp_all add: concatPlanned_def newTensorAlloc_def)
  ultimately show ?thesis
    using wf sz by simp
qed


end
